theory Spec2Isabelle
  imports Main
begin

section \<open>The build tool \<open>if_not_there\<close>\<close>

text \<open>
  \<open>tools/if_not_there.c\<close> consists of \<open>main\<close> alone. Everything
  \<open>main\<close> does is a call of the C library, so the model returns, next to the
  way the process ends, the list of library calls in the order in which they are made.
  What the operating system answers (whether a file opens, whether \<open>execvp\<close>
  replaces the process) is read from an environment record.
\<close>

text \<open>
  A C string argument is \<open>Some s\<close>, or \<open>None\<close> for the null
  pointer. The argument vector is the list of its strings; \<open>argv[argc]\<close> is
  the null pointer.
\<close>

type_synonym cstring = "string option"

definition argv_at :: "string list \<Rightarrow> nat \<Rightarrow> cstring" where
  "argv_at argv i = (if i < length argv then Some (argv ! i) else None)"

datatype event =
    Fopen cstring string
  | Fclose cstring string
  | Opendir cstring
  | Closedir cstring
  | Printf string
  | Fflush_stdout
  | Fprintf_stderr string cstring
  | Execvp cstring "string list"

datatype outcome =
    Returned int
  | Exited int
  | Replaced

text \<open>
  The environment. \<open>TRUSTED_STRING\<close> is a macro of
  \<open>private/gc_priv.h\<close>, a header that is not available, so it is a parameter.
  \<open>djgpp\<close> says whether the tool was compiled with \<open>__DJGPP__\<close>
  defined. \<open>fopen_ok name mode\<close> holds when \<open>fopen\<close> returns a
  non-null stream, \<open>opendir_ok name\<close> when \<open>opendir\<close> returns a
  non-null directory, and \<open>execvp_fails file args\<close> when \<open>execvp\<close>
  returns instead of replacing the process.
\<close>

record env =
  TRUSTED_STRING :: "cstring \<Rightarrow> cstring"
  djgpp :: bool
  fopen_ok :: "cstring \<Rightarrow> string \<Rightarrow> bool"
  opendir_ok :: "cstring \<Rightarrow> bool"
  execvp_fails :: "cstring \<Rightarrow> string list \<Rightarrow> bool"

definition usage_format :: string where
  "usage_format = ''Usage: %s file_name [command]\<newline>''"

definition banner :: string where
  "banner = ''^^^^Starting command^^^^\<newline>''"

text \<open>The calls made while probing for the file, when every probe fails.\<close>

definition probes :: "env \<Rightarrow> cstring \<Rightarrow> event list" where
  "probes e fname =
     [Fopen fname ''rb'', Fopen fname ''r''] @ (if djgpp e then [Opendir fname] else [])"

definition main :: "env \<Rightarrow> int \<Rightarrow> string list \<Rightarrow> outcome \<times> event list" where
  "main e argc argv =
     (if argc < 2 \<or> argc > 3 then
        (Returned 1, [Fprintf_stderr usage_format (argv_at argv 0)])
      else
        let fname = TRUSTED_STRING e (argv_at argv 1) in
        if fopen_ok e fname ''rb'' then
          (Returned 0, [Fopen fname ''rb'', Fclose fname ''rb''])
        else if fopen_ok e fname ''r'' then
          (Returned 0, [Fopen fname ''rb'', Fopen fname ''r'', Fclose fname ''r''])
        else if djgpp e \<and> opendir_ok e fname then
          (Returned 0, probes e fname @ [Closedir fname])
        else if argc = 2 then
          (Returned 2, probes e fname @ [Printf banner, Fflush_stdout])
        else
          let cmd = TRUSTED_STRING e (argv_at argv 2); args = drop 2 argv in
          (if execvp_fails e cmd args then Exited 1 else Replaced,
           probes e fname @ [Printf banner, Fflush_stdout, Execvp cmd args]))"

text \<open>Classifying the calls of a trace.\<close>

fun opens_file :: "event \<Rightarrow> bool" where
  "opens_file (Fopen _ _) = True"
| "opens_file (Opendir _) = True"
| "opens_file _ = False"

fun runs_command :: "event \<Rightarrow> bool" where
  "runs_command (Execvp _ _) = True"
| "runs_command _ = False"

text \<open>
  \<open>can_open e fname\<close>: one of the probes of \<open>main\<close> finds the
  file. The directory probe exists only in a DJGPP build.
\<close>

definition can_open :: "env \<Rightarrow> cstring \<Rightarrow> bool" where
  "can_open e fname \<longleftrightarrow>
     fopen_ok e fname ''rb'' \<or> fopen_ok e fname ''r'' \<or> (djgpp e \<and> opendir_ok e fname)"

text \<open>An environment for the closed instances below: a POSIX build where only the
  file \<open>gc.a\<close> exists and every command can be started.\<close>

definition posix_env :: env where
  "posix_env = \<lparr> TRUSTED_STRING = (\<lambda>s. s), djgpp = False,
                 fopen_ok = (\<lambda>name mode. name = Some ''gc.a''),
                 opendir_ok = (\<lambda>name. False),
                 execvp_fails = (\<lambda>file args. False) \<rparr>"

section \<open>The allocation and collection engine\<close>

text \<open>
  \<open>extra/gc.c\<close> assembles the collector from the translation units it includes
  (\<open>headers.c\<close>, \<open>allchblk.c\<close>, \<open>alloc.c\<close>,
  \<open>malloc.c\<close>, \<open>mark.c\<close>, \<open>reclaim.c\<close>,
  \<open>finalize.c\<close>, \<open>blacklst.c\<close>, ...); none of these units is
  available. The engine is therefore modelled from the specification, component by
  component, and each definition of this section says which sentences of the specification
  it follows. Thread suspension and thread-local caches are outside the model: a
  collection is one uninterrupted step of a single actor, as the stop-the-world barrier
  makes it appear. What the spec leaves optional is left out as well: lazy sweeping,
  clearing the memory of reclaimed chunks, returning empty blocks to the operating system,
  the decay of the blacklist and partial-object scanning.
\<close>

subsection \<open>Data model\<close>

type_synonym addr = nat

text \<open>Modelled from the spec: the word, page and granule sizes, constants of the
  missing \<open>gcconfig.h\<close> and \<open>gc_priv.h\<close> that the spec leaves to
  configuration. Addresses count bytes; memory is read and written in words.\<close>

definition word_size :: nat where
  "word_size = 8"

definition page_size :: nat where
  "page_size = 4096"

definition granule :: nat where
  "granule = 16"

text \<open>Modelled from the spec: the block header of the missing
  \<open>headers.c\<close>. A Heap Block is a page-aligned region subdivided into chunks
  of one size class; its attributes are the base address, the size class and the chunk
  count.\<close>

record block =
  base :: addr
  chunk_size :: nat
  chunk_count :: nat

text \<open>Modelled from the spec: the answers of \<open>classify(address)\<close>
  (section 4.2; the lookup of the missing \<open>headers.c\<close>).\<close>

datatype region =
    NotHeap
  | BlockStart nat
  | InteriorOf addr

text \<open>
  Modelled from the spec: the process-wide state (sections 3 and 6), the globals of the
  missing \<open>gc_priv.h\<close>.
  \<^item> \<open>index\<close>: the Header/Metadata Index, keyed by the block-aligned address prefix
    (the page number);
  \<^item> \<open>mem\<close>: the word stored at each address;
  \<^item> \<open>blacklist\<close>: the flagged pages;
  \<^item> \<open>free_list\<close>: the free list of each size class;
  \<^item> \<open>in_use\<close>: the chunks handed out and not yet freed or reclaimed;
  \<^item> \<open>marks\<close>: the mark bits, and \<open>mark_log\<close>: the objects whose bit the last
    collection set, in the order in which it set them;
  \<^item> \<open>roots\<close>: the words of the root set (stacks, registers, static ranges);
  \<^item> \<open>finalizable\<close>: the objects with a registered finalizer; \<open>fin_queue\<close>: the
    finalization queue; \<open>finalized\<close>: the objects whose finalizer has run;
  \<^item> \<open>brk\<close>: the first page never handed to the heap; \<open>os_pages\<close>: the number of
    pages the operating system will still grant;
  \<^item> \<open>collections\<close>: the number of collections run so far;
  \<^item> \<open>growth_threshold\<close>, \<open>bytes_since_gc\<close>, \<open>collect_scheduled\<close>: the heap-growth
    trigger.
\<close>

record heap =
  index :: "(nat \<times> block) list"
  mem :: "addr \<Rightarrow> nat"
  blacklist :: "nat list"
  free_list :: "nat \<Rightarrow> addr list"
  in_use :: "addr set"
  marks :: "addr set"
  mark_log :: "addr list"
  roots :: "nat list"
  finalizable :: "addr list"
  fin_queue :: "addr list"
  finalized :: "addr list"
  brk :: nat
  os_pages :: nat
  collections :: nat
  growth_threshold :: nat
  bytes_since_gc :: nat
  collect_scheduled :: bool

subsection \<open>Header/Metadata Index\<close>

text \<open>Modelled from the spec: the header lookup of the missing
  \<open>headers.c\<close>, \<open>classify(address) -> {NotHeap,
  BlockStart(size_class), InteriorOf(objectStart)}\<close>, a table lookup keyed by the
  block-aligned address prefix.\<close>

definition classify :: "heap \<Rightarrow> addr \<Rightarrow> region" where
  "classify h a =
     (case map_of (index h) (a div page_size) of
        None \<Rightarrow> NotHeap
      | Some b \<Rightarrow>
          if base b \<le> a \<and> a < base b + chunk_size b * chunk_count b then
            let off = (a - base b) mod chunk_size b in
            if off = 0 then BlockStart (chunk_size b) else InteriorOf (a - off)
          else NotHeap)"

text \<open>Modelled from the spec: the object start a word resolves to (missing
  \<open>mark.c\<close>); an interior pointer is a reference to the whole object
  (section 4.3).\<close>

definition resolve :: "heap \<Rightarrow> nat \<Rightarrow> addr option" where
  "resolve h w =
     (case classify h w of
        NotHeap \<Rightarrow> None
      | BlockStart c \<Rightarrow> Some w
      | InteriorOf s \<Rightarrow> Some s)"

text \<open>Modelled from the spec: the chunks a block is subdivided into (section 3),
  and the chunks of the heap: every chunk start of every indexed block.\<close>

definition block_chunks :: "block \<Rightarrow> addr list" where
  "block_chunks b = map (\<lambda>i. base b + i * chunk_size b) [0..<chunk_count b]"

definition heap_blocks :: "heap \<Rightarrow> block list" where
  "heap_blocks h = remdups (map snd (index h))"

definition chunk_starts :: "heap \<Rightarrow> addr list" where
  "chunk_starts h = concat (map block_chunks (heap_blocks h))"

subsection \<open>Blacklist\<close>

text \<open>Modelled from the spec: \<open>isBlacklisted(address) -> bool\<close> of the
  missing \<open>blacklst.c\<close>, a page table (section 4.4).\<close>

definition isBlacklisted :: "heap \<Rightarrow> addr \<Rightarrow> bool" where
  "isBlacklisted h a \<longleftrightarrow> a div page_size \<in> set (blacklist h)"

text \<open>Modelled from the spec: the population of the blacklist (missing
  \<open>blacklst.c\<close>). An entry is an address or page flagged as ``observed as a
  pointer-like value that does not correspond to a real object start'', or a ``page known
  to contain only non-pointer data'' (section 3). \<open>note_false_pointer\<close> is the first
  kind: it covers the value ``whose page has never been validly allocated'' and the
  interior value; which of the observed values are flagged (``implausible frequency'') is
  a heuristic the spec leaves open, so the observation is an operation of its own.
  \<open>note_pointer_free_page\<close> is the second kind. Either can flag a page that holds
  objects.\<close>

definition note_false_pointer :: "nat \<Rightarrow> heap \<Rightarrow> heap" where
  "note_false_pointer w h =
     (if isBlacklisted h w \<or> (\<exists>c. classify h w = BlockStart c) then h
      else h\<lparr>blacklist := (w div page_size) # blacklist h\<rparr>)"

definition note_pointer_free_page :: "nat \<Rightarrow> heap \<Rightarrow> heap" where
  "note_pointer_free_page p h =
     (if p \<in> set (blacklist h) then h else h\<lparr>blacklist := p # blacklist h\<rparr>)"

subsection \<open>Mark Engine\<close>

text \<open>Modelled from the spec: the in-bounds memory of the object that starts at
  \<open>s\<close>, word by word, as the scanner of the missing \<open>mark.c\<close>
  reads it.\<close>

definition obj_words :: "heap \<Rightarrow> addr \<Rightarrow> nat list" where
  "obj_words h s =
     (case classify h s of
        BlockStart c \<Rightarrow> map (\<lambda>i. mem h (s + i * word_size)) [0..<c div word_size]
      | _ \<Rightarrow> [])"

text \<open>Modelled from the spec: the scan of one object (missing
  \<open>mark.c\<close>), ``for each word, consult the Blacklist (skip known-false
  patterns), then \<open>classify()\<close>; on
  \<open>BlockStart\<close>/\<open>InteriorOf\<close>, push the resolved object start if
  unmarked''. \<open>obj_refs h s\<close> are the object starts the words of
  \<open>s\<close> resolve to, and \<open>scan h m s\<close> those of them that are
  pushed when the marked set is \<open>m\<close>.\<close>

definition obj_refs :: "heap \<Rightarrow> addr \<Rightarrow> addr list" where
  "obj_refs h s =
     List.map_filter (resolve h) (filter (\<lambda>w. \<not> isBlacklisted h w) (obj_words h s))"

definition scan :: "heap \<Rightarrow> addr set \<Rightarrow> addr \<Rightarrow> addr list" where
  "scan h m s = filter (\<lambda>t. t \<notin> m) (obj_refs h s)"

text \<open>Modelled from the spec: the root seeds (missing \<open>mark_rts.c\<close>),
  ``Seed the work-list with every root value that \<open>classify()\<close> resolves to
  a valid object start''.\<close>

definition seed :: "heap \<Rightarrow> addr list" where
  "seed h = List.map_filter (resolve h) (roots h)"

lemma resolve_chunk_start:
  assumes "resolve h w = Some t"
  shows "t \<in> set (chunk_starts h)"
proof -
  from assms obtain b where b: "map_of (index h) (w div page_size) = Some b"
    and lo: "base b \<le> w" and hi: "w < base b + chunk_size b * chunk_count b"
    by (auto simp: resolve_def classify_def split: option.splits if_splits)
  from b have "b \<in> set (heap_blocks h)"
    by (auto simp: heap_blocks_def dest!: map_of_SomeD intro: rev_image_eqI)
  moreover
  from assms b lo hi have t: "t = w - (w - base b) mod chunk_size b"
    by (auto simp: resolve_def classify_def Let_def split: if_splits)
  define q where "q = (w - base b) div chunk_size b"
  from hi lo have pos: "0 < chunk_size b"
    by (cases "chunk_size b") auto
  from lo hi have "w - base b < chunk_size b * chunk_count b"
    by arith
  then have "q < chunk_count b"
    unfolding q_def using pos by (simp add: less_mult_imp_div_less mult.commute)
  moreover have "w - base b = q * chunk_size b + (w - base b) mod chunk_size b"
    unfolding q_def by simp
  then have "t = base b + q * chunk_size b"
    using t lo by arith
  ultimately show ?thesis
    by (auto simp: chunk_starts_def block_chunks_def intro!: bexI [of _ b] image_eqI [of _ _ q])
qed

lemma set_map_filter: "set (List.map_filter f xs) = {y. \<exists>x \<in> set xs. f x = Some y}"
  by (induction xs) (auto split: option.splits)

lemma obj_refs_chunk_start: "t \<in> set (obj_refs h s) \<Longrightarrow> t \<in> set (chunk_starts h)"
  by (auto simp: obj_refs_def set_map_filter dest: resolve_chunk_start)

lemma scan_subset: "set (scan h m s) \<subseteq> set (chunk_starts h) - m"
  by (auto simp: scan_def dest: obj_refs_chunk_start)

text \<open>
  Modelled from the spec: the marking loop of the missing \<open>mark.c\<close>,
  ``maintain an explicit work-list. Repeatedly pop an object, skip it if already marked,
  else mark it and scan its in-bounds memory''. The state of the loop is the work-list,
  the marked set and the log of the bits set so far; the loop ends when the work-list is
  empty.
\<close>

function mark_loop :: "heap \<Rightarrow> addr list \<times> addr set \<times> addr list \<Rightarrow> addr set \<times> addr list" where
  "mark_loop h ([], m, log) = (m, log)"
| "mark_loop h (s # wl, m, log) =
     (if s \<in> m then mark_loop h (wl, m, log)
      else mark_loop h (scan h (insert s m) s @ wl, insert s m, log @ [s]))"
  by pat_completeness auto

termination
proof (relation "inv_image (finite_psubset <*lex*> less_than)
         (\<lambda>(h, wl, m, log). ((set (chunk_starts h) \<union> set wl) - m, length wl))")
  show "wf (inv_image (finite_psubset <*lex*> less_than)
         (\<lambda>(h, wl, m, log). ((set (chunk_starts h) \<union> set wl) - m, length wl)))"
    by auto
next
  fix h :: heap and s :: addr and wl :: "addr list" and m :: "addr set" and log :: "addr list"
  assume "s \<in> m"
  then have "(set (chunk_starts h) \<union> set wl) - m = (set (chunk_starts h) \<union> set (s # wl)) - m"
    by auto
  then show "((h, wl, m, log), (h, s # wl, m, log))
      \<in> inv_image (finite_psubset <*lex*> less_than)
         (\<lambda>(h, wl, m, log). ((set (chunk_starts h) \<union> set wl) - m, length wl))"
    by simp
next
  fix h :: heap and s :: addr and wl :: "addr list" and m :: "addr set" and log :: "addr list"
  assume "s \<notin> m"
  have "(set (chunk_starts h) \<union> set (scan h (insert s m) s @ wl)) - insert s m
      \<subset> (set (chunk_starts h) \<union> set (s # wl)) - m"
    using \<open>s \<notin> m\<close> scan_subset [of h "insert s m" s] by auto
  then show "((h, scan h (insert s m) s @ wl, insert s m, log @ [s]), (h, s # wl, m, log))
      \<in> inv_image (finite_psubset <*lex*> less_than)
         (\<lambda>(h, wl, m, log). ((set (chunk_starts h) \<union> set wl) - m, length wl))"
    by (simp add: finite_psubset_def)
qed


text \<open>Modelled from the spec: running the marking loop from a work-list on the mark
  bits of the heap (missing \<open>mark.c\<close>).\<close>

definition mark_from :: "addr list \<Rightarrow> heap \<Rightarrow> heap" where
  "mark_from wl h =
     (let (m, log) = mark_loop h (wl, marks h, mark_log h) in h\<lparr>marks := m, mark_log := log\<rparr>)"

text \<open>Modelled from the spec: clearing the marks (missing \<open>mark.c\<close>),
  ``mark bits are cleared at the start of every collection''.\<close>

definition clear_marks :: "heap \<Rightarrow> heap" where
  "clear_marks h = h\<lparr>marks := {}, mark_log := []\<rparr>"

text \<open>Modelled from the spec: the mark phase of a collection (missing
  \<open>alloc.c\<close> and \<open>mark.c\<close>), seeded from the root set.\<close>

definition mark_phase :: "heap \<Rightarrow> heap" where
  "mark_phase h = mark_from (seed h) h"

subsection \<open>Finalization Subsystem\<close>

text \<open>
  Modelled from the spec: the finalization decisions of a collection (section 4.7; the
  missing \<open>finalize.c\<close>). An object in the finalization queue is kept alive
  through the reachability pass. An unreachable object with a registered finalizer is a
  candidate; everything reachable from a candidate's memory is kept alive, and a candidate
  that is itself reachable from a candidate's memory is not scheduled yet (``if object B
  is reachable only through object A's finalizer, A's finalizer is scheduled to run before
  B becomes a finalization candidate''). The scheduled objects move from the registry to
  the queue and are kept alive as well.
\<close>

definition candidates :: "heap \<Rightarrow> addr list" where
  "candidates h = filter (\<lambda>c. c \<in> in_use h \<and> c \<notin> marks h) (finalizable h)"

definition finalize_phase :: "heap \<Rightarrow> heap" where
  "finalize_phase h =
     (let h1 = mark_from (fin_queue h) h;
          cands = candidates h1;
          h2 = mark_from (concat (map (scan h1 (marks h1)) cands)) h1;
          ready = filter (\<lambda>c. c \<notin> marks h2) cands;
          h3 = mark_from ready h2
      in h3\<lparr>fin_queue := fin_queue h @ ready,
             finalizable := filter (\<lambda>c. c \<notin> set ready) (finalizable h)\<rparr>)"

text \<open>Modelled from the spec: \<open>registerFinalizer\<close> (missing
  \<open>finalize.c\<close>); one record per object.\<close>

definition register_finalizer :: "addr \<Rightarrow> heap \<Rightarrow> heap" where
  "register_finalizer a h =
     (if a \<in> set (finalizable h) then h else h\<lparr>finalizable := finalizable h @ [a]\<rparr>)"

text \<open>Modelled from the spec: the finalizer-execution task (missing
  \<open>finalize.c\<close>). Finalizers execute outside the collection, in a separate
  task that takes them from the queue; the record is destroyed once the finalizer has
  executed. What the callback itself does is outside the spec.\<close>

definition run_finalizer :: "heap \<Rightarrow> heap" where
  "run_finalizer h =
     (case fin_queue h of
        [] \<Rightarrow> h
      | a # q \<Rightarrow> h\<lparr>fin_queue := q, finalized := finalized h @ [a]\<rparr>)"

subsection \<open>Reclaimer\<close>

text \<open>Modelled from the spec: returning a chunk to the free list of its size class
  (missing \<open>reclaim.c\<close> and \<open>malloc.c\<close>).\<close>

definition release :: "addr \<Rightarrow> heap \<Rightarrow> heap" where
  "release s h =
     (case classify h s of
        BlockStart c \<Rightarrow>
          h\<lparr>in_use := in_use h - {s}, free_list := (free_list h)(c := s # free_list h c)\<rparr>
      | _ \<Rightarrow> h)"

text \<open>Modelled from the spec: the sweep (missing \<open>reclaim.c\<close>), ``For
  each Heap Block, walk its chunks; any chunk whose object is unmarked after the Mark
  Engine phase is returned to the relevant Free List'' (section 4.5).\<close>

definition sweep_chunk :: "addr \<Rightarrow> heap \<Rightarrow> heap" where
  "sweep_chunk s h = (if s \<in> in_use h \<and> s \<notin> marks h then release s h else h)"

definition sweep :: "heap \<Rightarrow> heap" where
  "sweep h = fold sweep_chunk (chunk_starts h) h"

subsection \<open>A collection\<close>

text \<open>Modelled from the spec: a collection (section 2, data flow; the missing
  \<open>alloc.c\<close>): marking from the roots, the finalization decisions, the
  sweep. A collection also resets the heap-growth trigger.
  \<open>forceCollection()\<close> is the interface to it.\<close>

definition collect :: "heap \<Rightarrow> heap" where
  "collect h =
     (sweep (finalize_phase (mark_phase (clear_marks h))))
       \<lparr>collections := collections h + 1, bytes_since_gc := 0, collect_scheduled := False\<rparr>"

definition forceCollection :: "heap \<Rightarrow> heap" where
  "forceCollection h = collect h"

subsection \<open>Block Allocator and Free-List Allocator\<close>

text \<open>Modelled from the spec: the size classes (missing \<open>misc.c\<close>).
  They form a geometric progression, here the granule and its doublings; a request is
  rounded up to the first class that holds it.\<close>

function size_class_from :: "nat \<Rightarrow> nat \<Rightarrow> nat" where
  "size_class_from c n = (if n \<le> c \<or> c = 0 then c else size_class_from (2 * c) n)"
  by pat_completeness auto

termination
  by (relation "measure (\<lambda>(c, n). n - c)") auto

declare size_class_from.simps [simp del]

definition size_class_of :: "nat \<Rightarrow> nat" where
  "size_class_of n = size_class_from granule n"

definition pages_for :: "nat \<Rightarrow> nat" where
  "pages_for c = (c + page_size - 1) div page_size"

text \<open>
  Modelled from the spec: the Block Allocator (missing \<open>allchblk.c\<close> and
  \<open>new_hblk.c\<close>). It acquires a page-aligned region from the operating system
  and subdivides it into chunks of one size class; the blacklist is ``consulted to avoid
  allocating real objects at addresses that would be mistaken for pointers'', so the
  region is placed on pages that are not flagged: on the first clear one of the windows of
  \<open>k\<close> pages that follow \<open>brk\<close>, of which one more is tried than
  there are flagged pages. \<open>None\<close>: the operating system refuses further
  pages.
\<close>

definition pages_clear :: "heap \<Rightarrow> nat \<Rightarrow> nat \<Rightarrow> bool" where
  "pages_clear h p k = list_all (\<lambda>q. q \<notin> set (blacklist h)) [p..<p + k]"

definition new_block :: "nat \<Rightarrow> nat \<Rightarrow> block" where
  "new_block p c =
     \<lparr>base = p * page_size, chunk_size = c, chunk_count = (pages_for c * page_size) div c\<rparr>"

definition acquire_block :: "nat \<Rightarrow> heap \<Rightarrow> heap option" where
  "acquire_block c h =
     (let k = pages_for c in
      if os_pages h < k then None
      else
        case find (\<lambda>p. pages_clear h p k)
               (map (\<lambda>i. brk h + i * k) [0..<Suc (length (blacklist h))]) of
          None \<Rightarrow> None
        | Some p \<Rightarrow>
            Some (h\<lparr>index := map (\<lambda>q. (q, new_block p c)) [p..<p + k] @ index h,
                     free_list := (free_list h)(c := block_chunks (new_block p c) @ free_list h c),
                     brk := p + k,
                     os_pages := os_pages h - k\<rparr>))"

text \<open>Modelled from the spec: the refill of a free list (missing
  \<open>malloc.c\<close>), ``On free-list exhaustion for a size class, requests
  additional chunks from the Block Allocator''.\<close>

definition refill :: "nat \<Rightarrow> heap \<Rightarrow> heap option" where
  "refill c h = (if free_list h c \<noteq> [] then Some h else acquire_block c h)"

text \<open>Modelled from the spec: ``OS memory exhaustion'' for a request of class
  \<open>c\<close>. The free list of the class is empty and the operating system does
  not grant the pages of a new block.\<close>

definition os_refuses :: "nat \<Rightarrow> heap \<Rightarrow> bool" where
  "os_refuses c h \<longleftrightarrow> free_list h c = [] \<and> os_pages h < pages_for c"

text \<open>Modelled from the spec: the caller-selected initialization mode, the
  distinguished failure result, and the heap-growth trigger (missing
  \<open>malloc.c\<close> and \<open>alloc.c\<close>), ``crossing a configurable
  heap-growth threshold schedules a collection on the next allocation boundary rather
  than immediately''.\<close>

datatype init_mode = Zeroed | Uninitialized

datatype alloc_error = OutOfMemory

definition zero_fill :: "addr \<Rightarrow> nat \<Rightarrow> heap \<Rightarrow> heap" where
  "zero_fill a c h = h\<lparr>mem := (\<lambda>x. if a \<le> x \<and> x < a + c then 0 else mem h x)\<rparr>"

definition note_growth :: "nat \<Rightarrow> heap \<Rightarrow> heap" where
  "note_growth c h =
     h\<lparr>bytes_since_gc := bytes_since_gc h + c,
       collect_scheduled := (collect_scheduled h \<or> growth_threshold h < bytes_since_gc h + c)\<rparr>"

text \<open>Modelled from the spec: handing out the first chunk of the free list of class
  \<open>c\<close> (missing \<open>malloc.c\<close>), zero-initialized or not as the
  mode says. It is called after a successful refill, when the list is not empty.\<close>

definition hand_out :: "nat \<Rightarrow> init_mode \<Rightarrow> heap \<Rightarrow> (alloc_error + addr) \<times> heap" where
  "hand_out c mode h =
     (case free_list h c of
        [] \<Rightarrow> (Inl OutOfMemory, h)
      | a # rest \<Rightarrow>
          let h1 = h\<lparr>free_list := (free_list h)(c := rest), in_use := insert a (in_use h)\<rparr>;
              h2 = (case mode of Zeroed \<Rightarrow> zero_fill a c h1 | Uninitialized \<Rightarrow> h1)
          in (Inr a, note_growth c h2))"

text \<open>
  Modelled from the spec: allocation (sections 4.1, 6 and 7; the missing
  \<open>malloc.c\<close>), \<open>allocate(size, kind) -> address | OutOfMemory\<close>.
  A scheduled collection runs at the allocation boundary. The request is served from the
  free list of its size class, refilled by the Block Allocator when empty; ``allocation
  failure (OS memory exhaustion) triggers an emergency collection before surfacing an
  out-of-memory condition''.
\<close>

definition at_boundary :: "heap \<Rightarrow> heap" where
  "at_boundary h = (if collect_scheduled h then collect h else h)"

definition allocate :: "heap \<Rightarrow> nat \<Rightarrow> init_mode \<Rightarrow> (alloc_error + addr) \<times> heap" where
  "allocate h n mode =
     (let c = size_class_of n; h0 = at_boundary h in
      case refill c h0 of
        Some h1 \<Rightarrow> hand_out c mode h1
      | None \<Rightarrow>
          let h1 = collect h0 in
          case refill c h1 of
            Some h2 \<Rightarrow> hand_out c mode h2
          | None \<Rightarrow> (Inl OutOfMemory, h1))"

text \<open>Modelled from the spec: explicit deallocation (missing
  \<open>malloc.c\<close>), \<open>free(address)\<close> ``returns a chunk to its free
  list immediately''. The spec gives it no effect on an address that is not in use.\<close>

definition free :: "addr \<Rightarrow> heap \<Rightarrow> heap" where
  "free a h = (if a \<in> in_use h then release a h else h)"

subsection \<open>The mutator and the states of the heap\<close>

text \<open>Modelled from the spec: what the mutator does to the heap besides allocating,
  a store to memory and a change of the root words; and the state ``initialized on first
  allocation call'' (missing \<open>misc.c\<close>): no block, nothing in use. The
  blacklist, the pages the operating system will grant and the growth threshold are
  configuration. Page 0 is never part of the heap.\<close>

definition store :: "addr \<Rightarrow> nat \<Rightarrow> heap \<Rightarrow> heap" where
  "store a v h = h\<lparr>mem := (mem h)(a := v)\<rparr>"

definition set_roots :: "nat list \<Rightarrow> heap \<Rightarrow> heap" where
  "set_roots rs h = h\<lparr>roots := rs\<rparr>"

definition init_heap :: "nat list \<Rightarrow> nat \<Rightarrow> nat \<Rightarrow> heap" where
  "init_heap bl pages threshold =
     \<lparr>index = [], mem = (\<lambda>a. 0), blacklist = bl, free_list = (\<lambda>c. []), in_use = {},
      marks = {}, mark_log = [], roots = [], finalizable = [], fin_queue = [],
      finalized = [], brk = 1, os_pages = pages, collections = 0,
      growth_threshold = threshold, bytes_since_gc = 0, collect_scheduled = False\<rparr>"

text \<open>Modelled from the spec: the operations of the interface (section 6) and of the
  collaborators the spec names, as steps on the heap: an allocation, an explicit
  deallocation, a forced collection, a store and a change of the roots by the mutator,
  the registration of a finalizer, a step of the finalizer-execution task, and the two
  ways the blacklist is populated.\<close>

inductive interface_step :: "heap \<Rightarrow> heap \<Rightarrow> bool" where
  step_allocate: "interface_step h (snd (allocate h n mode))"
| step_free: "interface_step h (free a h)"
| step_collect: "interface_step h (forceCollection h)"
| step_store: "interface_step h (store a v h)"
| step_set_roots: "interface_step h (set_roots rs h)"
| step_register: "interface_step h (register_finalizer a h)"
| step_finalizer: "interface_step h (run_finalizer h)"
| step_false_pointer: "interface_step h (note_false_pointer w h)"
| step_pointer_free: "interface_step h (note_pointer_free_page p h)"

text \<open>Modelled from the spec: the states the heap can be in, that is the initial
  state and every state a step of the interface leads to from one of them.\<close>

inductive heap_state :: "heap \<Rightarrow> bool" where
  hs_init: "heap_state (init_heap bl pages threshold)"
| hs_step: "heap_state h \<Longrightarrow> interface_step h h' \<Longrightarrow> heap_state h'"



subsection \<open>Reachability\<close>








text \<open>The references the Mark Engine follows, as a relation.\<close>

definition edges :: "heap \<Rightarrow> (addr \<times> addr) set" where
  "edges h = {(s, t). t \<in> set (obj_refs h s)}"

subsection \<open>Invariants of the heap\<close>

text \<open>
  Modelled from the spec: ``a chunk is in exactly one of {free list, in-use,
  pending-sweep} at any time; never in two simultaneously''. A chunk on the free list of
  class \<open>c\<close> is a chunk start of that class and is not in use; no chunk is twice on a
  free list; a chunk in use is a chunk start; the pages of the heap lie below \<open>brk\<close>.
\<close>

definition free_lists_ok :: "heap \<Rightarrow> bool" where
  "free_lists_ok h \<longleftrightarrow>
     (\<forall>c. distinct (free_list h c)
        \<and> (\<forall>a \<in> set (free_list h c). classify h a = BlockStart c \<and> a \<notin> in_use h))"

definition in_use_ok :: "heap \<Rightarrow> bool" where
  "in_use_ok h \<longleftrightarrow> (\<forall>a \<in> in_use h. \<exists>c. classify h a = BlockStart c)"

definition index_ok :: "heap \<Rightarrow> bool" where
  "index_ok h \<longleftrightarrow> (\<forall>p \<in> fst ` set (index h). p < brk h)"

definition heap_inv :: "heap \<Rightarrow> bool" where
  "heap_inv h \<longleftrightarrow> free_lists_ok h \<and> in_use_ok h \<and> index_ok h"

subsection \<open>Notions used in the proofs\<close>

text \<open>\<open>closed_upto h m W\<close>: every object an object of \<open>m\<close>
  refers to is in \<open>m\<close> or waits in \<open>W\<close>.\<close>

definition closed_upto :: "heap \<Rightarrow> addr set \<Rightarrow> addr set \<Rightarrow> bool" where
  "closed_upto h m W \<longleftrightarrow> (\<forall>s \<in> m. \<forall>t. (s, t) \<in> edges h \<longrightarrow> t \<in> m \<or> t \<in> W)"

text \<open>Two heaps with the same index, memory and blacklist hold the same object
  graph.\<close>

definition same_graph :: "heap \<Rightarrow> heap \<Rightarrow> bool" where
  "same_graph h' h \<longleftrightarrow> index h' = index h \<and> mem h' = mem h \<and> blacklist h' = blacklist h"

definition log_ok :: "heap \<Rightarrow> bool" where
  "log_ok h \<longleftrightarrow> distinct (mark_log h) \<and> set (mark_log h) = marks h"

text \<open>The marks after the queue has been kept alive, the candidates and the objects
  scheduled by the finalization decisions of a collection.\<close>

definition queue_marks :: "heap \<Rightarrow> addr set" where
  "queue_marks h = marks h \<union> (edges h)\<^sup>* `` set (fin_queue h)"

definition cands_of :: "heap \<Rightarrow> addr list" where
  "cands_of h = filter (\<lambda>c. c \<in> in_use h \<and> c \<notin> queue_marks h) (finalizable h)"

definition kept_marks :: "heap \<Rightarrow> addr set" where
  "kept_marks h = queue_marks h
     \<union> (edges h)\<^sup>* `` set (concat (map (scan h (queue_marks h)) (cands_of h)))"

definition ready_of :: "heap \<Rightarrow> addr list" where
  "ready_of h = filter (\<lambda>c. c \<notin> kept_marks h) (cands_of h)"

text \<open>The chunks a sweep reclaims: the chunk starts in use whose mark bit is not
  set.\<close>

definition dead :: "heap \<Rightarrow> addr \<Rightarrow> bool" where
  "dead h s \<longleftrightarrow> s \<notin> marks h \<and> (\<exists>c. classify h s = BlockStart c)"

text \<open>The finalization decisions and the marks of a whole collection, in terms of
  the heap the collection starts from.\<close>

definition live_marks :: "heap \<Rightarrow> addr set" where
  "live_marks h = (edges h)\<^sup>* `` (set (seed h) \<union> set (fin_queue h))"

definition pending :: "heap \<Rightarrow> addr list" where
  "pending h = filter (\<lambda>c. c \<in> in_use h \<and> c \<notin> live_marks h) (finalizable h)"

definition scheduled :: "heap \<Rightarrow> addr list" where
  "scheduled h = filter (\<lambda>c. c \<notin> live_marks h
       \<union> (edges h)\<^sup>* `` set (concat (map (scan h (live_marks h)) (pending h)))) (pending h)"

definition final_marks :: "heap \<Rightarrow> addr set" where
  "final_marks h = (edges h)\<^sup>* `` (set (seed h) \<union> set (fin_queue h) \<union> set (pending h))"

text \<open>The chunks a collection reclaims.\<close>

definition reclaimed :: "heap \<Rightarrow> addr set" where
  "reclaimed h = {s \<in> set (chunk_starts h). s \<notin> final_marks h \<and> (\<exists>c. classify h s = BlockStart c)}"


subsection \<open>Example heaps\<close>


definition fresh_heap :: heap where
  "fresh_heap = init_heap [] 4 100000"

definition exhausted_heap :: heap where
  "exhausted_heap = init_heap [] 0 1000"









section \<open>Lemmas about the engine\<close>

lemma mark_loop_mono: "m \<subseteq> fst (mark_loop h (wl, m, log))"
proof (induction h "(wl, m, log)" arbitrary: wl m log rule: mark_loop.induct)
  case (1 h m log)
  show ?case by simp
next
  case (2 h s wl m log)
  then show ?case by (cases "s \<in> m") auto
qed

lemma mark_loop_worklist: "set wl \<subseteq> fst (mark_loop h (wl, m, log))"
proof (induction h "(wl, m, log)" arbitrary: wl m log rule: mark_loop.induct)
  case (1 h m log)
  show ?case by simp
next
  case (2 h s wl m log)
  show ?case
  proof (cases "s \<in> m")
    case True
    with 2 mark_loop_mono [of m h wl log] show ?thesis by auto
  next
    case False
    with 2 mark_loop_mono [of "insert s m" h "scan h (insert s m) s @ wl" "log @ [s]"]
    show ?thesis by auto
  qed
qed



lemma scan_edges: "t \<in> set (scan h m s) \<Longrightarrow> (s, t) \<in> edges h"
  by (simp add: scan_def edges_def)

lemma mark_loop_sound: "fst (mark_loop h (wl, m, log)) \<subseteq> m \<union> (edges h)\<^sup>* `` set wl"
proof (induction h "(wl, m, log)" arbitrary: wl m log rule: mark_loop.induct)
  case (1 h m log)
  show ?case by simp
next
  case (2 h s wl m log)
  show ?case
  proof (cases "s \<in> m")
    case True
    with 2 show ?thesis by auto
  next
    case False
    have "(edges h)\<^sup>* `` set (scan h (insert s m) s @ wl) \<subseteq> (edges h)\<^sup>* `` set (s # wl)"
      by (auto dest!: scan_edges intro: converse_rtrancl_into_rtrancl)
    with False 2(2) [OF False] show ?thesis by auto
  qed
qed

lemma mark_loop_closed:
  "closed_upto h m (set wl) \<Longrightarrow> closed_upto h (fst (mark_loop h (wl, m, log))) {}"
proof (induction h "(wl, m, log)" arbitrary: wl m log rule: mark_loop.induct)
  case (1 h m log)
  then show ?case by (simp add: closed_upto_def)
next
  case (2 h s wl m log)
  show ?case
  proof (cases "s \<in> m")
    case True
    from 2(3) True have "closed_upto h m (set wl)"
      by (auto simp: closed_upto_def)
    with 2(1) True show ?thesis by simp
  next
    case False
    from 2(3) have "closed_upto h (insert s m) (set (scan h (insert s m) s @ wl))"
      by (auto simp: closed_upto_def scan_def edges_def)
    with 2(2) False show ?thesis by simp
  qed
qed

lemma closed_rtrancl:
  assumes "closed_upto h M {}" and "(s, t) \<in> (edges h)\<^sup>*" and "s \<in> M"
  shows "t \<in> M"
  using assms(2,3,1) by (induction rule: rtrancl_induct) (auto simp: closed_upto_def)

lemma mark_loop_marks:
  assumes "closed_upto h m (set wl)"
  shows "fst (mark_loop h (wl, m, log)) = m \<union> (edges h)\<^sup>* `` set wl"
proof
  show "fst (mark_loop h (wl, m, log)) \<subseteq> m \<union> (edges h)\<^sup>* `` set wl"
    by (rule mark_loop_sound)
  have "closed_upto h (fst (mark_loop h (wl, m, log))) {}"
    using assms by (rule mark_loop_closed)
  then have "(edges h)\<^sup>* `` set wl \<subseteq> fst (mark_loop h (wl, m, log))"
    using mark_loop_worklist [of wl h m log] by (auto dest: closed_rtrancl)
  then show "m \<union> (edges h)\<^sup>* `` set wl \<subseteq> fst (mark_loop h (wl, m, log))"
    using mark_loop_mono [of m h wl log] by auto
qed

lemma mark_loop_log:
  "\<exists>new. snd (mark_loop h (wl, m, log)) = log @ new \<and> distinct new
      \<and> set new = fst (mark_loop h (wl, m, log)) - m"
proof (induction h "(wl, m, log)" arbitrary: wl m log rule: mark_loop.induct)
  case (1 h m log)
  show ?case by simp
next
  case (2 h s wl m log)
  show ?case
  proof (cases "s \<in> m")
    case True
    with 2(1) show ?thesis by simp
  next
    case False
    let ?r = "mark_loop h (scan h (insert s m) s @ wl, insert s m, log @ [s])"
    from 2(2) [OF False] obtain new where new: "snd ?r = (log @ [s]) @ new" "distinct new"
      "set new = fst ?r - insert s m"
      by blast
    have "s \<in> fst ?r"
      using mark_loop_mono [of "insert s m" h "scan h (insert s m) s @ wl" "log @ [s]"] by auto
    with new False have "snd ?r = log @ (s # new) \<and> distinct (s # new) \<and> set (s # new) = fst ?r - m"
      by auto
    with False show ?thesis
      by (metis mark_loop.simps(2))
  qed
qed

lemma classify_cong: "index h' = index h \<Longrightarrow> classify h' = classify h"
  by (rule ext) (simp add: classify_def)

lemma resolve_cong: "index h' = index h \<Longrightarrow> resolve h' = resolve h"
  by (rule ext) (simp add: resolve_def classify_cong [of h' h])

lemma chunk_starts_cong: "index h' = index h \<Longrightarrow> chunk_starts h' = chunk_starts h"
  by (simp add: chunk_starts_def heap_blocks_def)

lemma obj_words_cong: "index h' = index h \<Longrightarrow> mem h' = mem h \<Longrightarrow> obj_words h' = obj_words h"
  by (rule ext) (simp add: obj_words_def classify_cong [of h' h] cong: region.case_cong)

lemma obj_refs_cong:
  "index h' = index h \<Longrightarrow> mem h' = mem h \<Longrightarrow> blacklist h' = blacklist h
    \<Longrightarrow> obj_refs h' = obj_refs h"
  by (rule ext) (simp add: obj_refs_def obj_words_cong [of h' h] resolve_cong [of h' h] isBlacklisted_def)

lemma scan_cong: "obj_refs h' = obj_refs h \<Longrightarrow> scan h' = scan h"
  by (intro ext) (simp add: scan_def)

lemma edges_cong: "obj_refs h' = obj_refs h \<Longrightarrow> edges h' = edges h"
  by (simp add: edges_def)

lemma seed_cong: "index h' = index h \<Longrightarrow> roots h' = roots h \<Longrightarrow> seed h' = seed h"
  by (simp add: seed_def resolve_cong [of h' h])

lemma mark_loop_cong_aux:
  "obj_refs h' = obj_refs h \<Longrightarrow> mark_loop h' (wl, m, log) = mark_loop h (wl, m, log)"
proof (induction h "(wl, m, log)" arbitrary: wl m log rule: mark_loop.induct)
  case (1 h m log)
  show ?case by simp
next
  case (2 h s wl m log)
  from 2(3) have "scan h' = scan h" by (rule scan_cong)
  with 2 show ?case
    by (cases "s \<in> m") simp_all
qed

lemma mark_loop_cong: "obj_refs h' = obj_refs h \<Longrightarrow> mark_loop h' st = mark_loop h st"
  using mark_loop_cong_aux [of h' h] by (cases st) auto

lemma mark_from_eq:
  "mark_from wl h = h\<lparr>marks := fst (mark_loop h (wl, marks h, mark_log h)),
                       mark_log := snd (mark_loop h (wl, marks h, mark_log h))\<rparr>"
  by (simp add: mark_from_def case_prod_unfold Let_def)

lemma mark_from_frame [simp]:
  "index (mark_from wl h) = index h" "mem (mark_from wl h) = mem h"
  "blacklist (mark_from wl h) = blacklist h" "roots (mark_from wl h) = roots h"
  "in_use (mark_from wl h) = in_use h" "free_list (mark_from wl h) = free_list h"
  "finalizable (mark_from wl h) = finalizable h" "fin_queue (mark_from wl h) = fin_queue h"
  "finalized (mark_from wl h) = finalized h" "brk (mark_from wl h) = brk h"
  "os_pages (mark_from wl h) = os_pages h" "collections (mark_from wl h) = collections h"
  "growth_threshold (mark_from wl h) = growth_threshold h"
  by (simp_all add: mark_from_eq)

lemma mark_from_marks:
  "marks (mark_from wl h) = fst (mark_loop h (wl, marks h, mark_log h))"
  "mark_log (mark_from wl h) = snd (mark_loop h (wl, marks h, mark_log h))"
  by (simp_all add: mark_from_eq)

lemma clear_marks_frame [simp]:
  "index (clear_marks h) = index h" "mem (clear_marks h) = mem h"
  "blacklist (clear_marks h) = blacklist h" "roots (clear_marks h) = roots h"
  "in_use (clear_marks h) = in_use h" "free_list (clear_marks h) = free_list h"
  "finalizable (clear_marks h) = finalizable h" "fin_queue (clear_marks h) = fin_queue h"
  "finalized (clear_marks h) = finalized h" "brk (clear_marks h) = brk h"
  "os_pages (clear_marks h) = os_pages h" "collections (clear_marks h) = collections h"
  "growth_threshold (clear_marks h) = growth_threshold h"
  "marks (clear_marks h) = {}" "mark_log (clear_marks h) = []"
  by (simp_all add: clear_marks_def)

lemma same_graph_refl [simp]: "same_graph h h"
  by (simp add: same_graph_def)

lemma same_graph_trans: "same_graph h'' h' \<Longrightarrow> same_graph h' h \<Longrightarrow> same_graph h'' h"
  by (simp add: same_graph_def)

lemma same_graph_mark_from [simp]: "same_graph (mark_from wl h) h"
  by (simp add: same_graph_def)

lemma same_graph_clear_marks [simp]: "same_graph (clear_marks h) h"
  by (simp add: same_graph_def)

lemma same_graphD:
  assumes "same_graph h' h"
  shows "obj_refs h' = obj_refs h" "scan h' = scan h" "edges h' = edges h"
    "classify h' = classify h" "resolve h' = resolve h" "chunk_starts h' = chunk_starts h"
    "obj_words h' = obj_words h" "mark_loop h' = mark_loop h"
proof -
  from assms have eq: "index h' = index h" "mem h' = mem h" "blacklist h' = blacklist h"
    by (simp_all add: same_graph_def)
  then show refs: "obj_refs h' = obj_refs h" by (rule obj_refs_cong)
  then show "scan h' = scan h" by (rule scan_cong)
  from refs show "edges h' = edges h" by (rule edges_cong)
  from eq(1) show "classify h' = classify h" by (rule classify_cong)
  from eq(1) show "resolve h' = resolve h" by (rule resolve_cong)
  from eq(1) show "chunk_starts h' = chunk_starts h" by (rule chunk_starts_cong)
  from eq(1,2) show "obj_words h' = obj_words h" by (rule obj_words_cong)
  show "mark_loop h' = mark_loop h" by (rule ext) (rule mark_loop_cong [OF refs])
qed

lemma closed_upto_empty [simp]: "closed_upto h {} W"
  by (simp add: closed_upto_def)

lemma closed_upto_Image [simp]: "closed_upto h ((edges h)\<^sup>* `` S) W"
  by (auto simp: closed_upto_def intro: rtrancl_into_rtrancl)

lemma closed_upto_weaken: "closed_upto h m {} \<Longrightarrow> closed_upto h m W"
  by (auto simp: closed_upto_def)

lemma mark_phase_marks:
  "marks (mark_phase (clear_marks h)) = (edges h)\<^sup>* `` set (seed h)"
proof -
  have "seed (clear_marks h) = seed h"
    by (rule seed_cong) simp_all
  moreover have "mark_loop (clear_marks h) = mark_loop h"
    by (simp add: same_graphD)
  ultimately show ?thesis
    by (simp add: mark_phase_def mark_from_marks mark_loop_marks)
qed

lemma log_ok_clear_marks [simp]: "log_ok (clear_marks h)"
  by (simp add: log_ok_def)

lemma log_ok_mark_from: "log_ok h \<Longrightarrow> log_ok (mark_from wl h)"
proof -
  assume ok: "log_ok h"
  obtain new where new: "snd (mark_loop h (wl, marks h, mark_log h)) = mark_log h @ new"
    "distinct new" "set new = fst (mark_loop h (wl, marks h, mark_log h)) - marks h"
    using mark_loop_log [of h wl "marks h" "mark_log h"] by blast
  with ok mark_loop_mono [of "marks h" h wl "mark_log h"] show ?thesis
    by (auto simp: log_ok_def mark_from_marks)
qed

lemma closed_upto_Un: "closed_upto h m {} \<Longrightarrow> closed_upto h (m \<union> (edges h)\<^sup>* `` S) W"
  by (auto simp: closed_upto_def intro: rtrancl_into_rtrancl)

lemma mark_from_closed_marks:
  assumes "closed_upto h (marks h) {}"
  shows "marks (mark_from wl h) = marks h \<union> (edges h)\<^sup>* `` set wl"
    and "closed_upto (mark_from wl h) (marks (mark_from wl h)) {}"
proof -
  from assms have "closed_upto h (marks h) (set wl)"
    by (rule closed_upto_weaken)
  then show eq: "marks (mark_from wl h) = marks h \<union> (edges h)\<^sup>* `` set wl"
    by (simp add: mark_from_marks mark_loop_marks)
  have "closed_upto h (marks h \<union> (edges h)\<^sup>* `` set wl) {}"
    using assms by (rule closed_upto_Un)
  then show "closed_upto (mark_from wl h) (marks (mark_from wl h)) {}"
    by (simp add: eq closed_upto_def same_graphD(3) [of "mark_from wl h" h])
qed

lemma finalize_phase_eq:
  assumes cl: "closed_upto h (marks h) {}"
  shows "marks (finalize_phase h) = kept_marks h \<union> (edges h)\<^sup>* `` set (ready_of h)"
    and "fin_queue (finalize_phase h) = fin_queue h @ ready_of h"
    and "finalizable (finalize_phase h) = filter (\<lambda>c. c \<notin> set (ready_of h)) (finalizable h)"
proof -
  define h1 where "h1 = mark_from (fin_queue h) h"
  define cands where "cands = candidates h1"
  define h2 where "h2 = mark_from (concat (map (scan h1 (marks h1)) cands)) h1"
  define ready where "ready = filter (\<lambda>c. c \<notin> marks h2) cands"
  define h3 where "h3 = mark_from ready h2"
  have fp: "finalize_phase h = h3\<lparr>fin_queue := fin_queue h @ ready,
      finalizable := filter (\<lambda>c. c \<notin> set ready) (finalizable h)\<rparr>"
    by (simp add: finalize_phase_def Let_def h1_def cands_def h2_def ready_def h3_def)
  have g1: "same_graph h1 h" by (simp add: h1_def)
  have g2: "same_graph h2 h" by (simp add: h2_def same_graph_def h1_def)
  have m1: "marks h1 = queue_marks h" and c1: "closed_upto h1 (marks h1) {}"
    using mark_from_closed_marks [OF cl, of "fin_queue h"] by (simp_all add: h1_def queue_marks_def)
  have cands: "cands = cands_of h"
    by (simp add: cands_def candidates_def cands_of_def m1) (simp add: h1_def)
  have m2: "marks h2 = kept_marks h" and c2: "closed_upto h2 (marks h2) {}"
    using mark_from_closed_marks [OF c1, of "concat (map (scan h1 (marks h1)) cands)"]
    by (simp_all add: h2_def kept_marks_def m1 cands same_graphD(2,3) [OF g1])
  have ready: "ready = ready_of h"
    by (simp add: ready_def ready_of_def m2 cands)
  have m3: "marks h3 = kept_marks h \<union> (edges h)\<^sup>* `` set (ready_of h)"
    using mark_from_closed_marks(1) [OF c2, of ready]
    by (simp add: h3_def m2 ready same_graphD(3) [OF g2])
  show "marks (finalize_phase h) = kept_marks h \<union> (edges h)\<^sup>* `` set (ready_of h)"
    by (simp add: fp m3)
  show "fin_queue (finalize_phase h) = fin_queue h @ ready_of h"
    by (simp add: fp ready)
  show "finalizable (finalize_phase h) = filter (\<lambda>c. c \<notin> set (ready_of h)) (finalizable h)"
    by (simp add: fp ready)
qed

lemma finalize_phase_frame [simp]:
  "index (finalize_phase h) = index h" "mem (finalize_phase h) = mem h"
  "blacklist (finalize_phase h) = blacklist h" "roots (finalize_phase h) = roots h"
  "in_use (finalize_phase h) = in_use h" "free_list (finalize_phase h) = free_list h"
  "finalized (finalize_phase h) = finalized h" "brk (finalize_phase h) = brk h"
  "os_pages (finalize_phase h) = os_pages h" "collections (finalize_phase h) = collections h"
  "growth_threshold (finalize_phase h) = growth_threshold h"
  by (simp_all add: finalize_phase_def Let_def)

lemma log_ok_finalize_phase: "log_ok h \<Longrightarrow> log_ok (finalize_phase h)"
  by (simp add: finalize_phase_def Let_def log_ok_def)
    (metis log_ok_def log_ok_mark_from)

lemma release_frame [simp]:
  "index (release s h) = index h" "mem (release s h) = mem h"
  "blacklist (release s h) = blacklist h" "roots (release s h) = roots h"
  "marks (release s h) = marks h" "mark_log (release s h) = mark_log h"
  "finalizable (release s h) = finalizable h" "fin_queue (release s h) = fin_queue h"
  "finalized (release s h) = finalized h" "brk (release s h) = brk h"
  "os_pages (release s h) = os_pages h" "collections (release s h) = collections h"
  "growth_threshold (release s h) = growth_threshold h"
  by (simp_all add: release_def split: region.splits)

lemma sweep_chunk_frame [simp]:
  "index (sweep_chunk s h) = index h" "mem (sweep_chunk s h) = mem h"
  "blacklist (sweep_chunk s h) = blacklist h" "roots (sweep_chunk s h) = roots h"
  "marks (sweep_chunk s h) = marks h" "mark_log (sweep_chunk s h) = mark_log h"
  "finalizable (sweep_chunk s h) = finalizable h" "fin_queue (sweep_chunk s h) = fin_queue h"
  "finalized (sweep_chunk s h) = finalized h" "brk (sweep_chunk s h) = brk h"
  "os_pages (sweep_chunk s h) = os_pages h" "collections (sweep_chunk s h) = collections h"
  "growth_threshold (sweep_chunk s h) = growth_threshold h"
  by (simp_all add: sweep_chunk_def)

lemma fold_sweep_frame [simp]:
  "index (fold sweep_chunk xs h) = index h" "mem (fold sweep_chunk xs h) = mem h"
  "blacklist (fold sweep_chunk xs h) = blacklist h" "roots (fold sweep_chunk xs h) = roots h"
  "marks (fold sweep_chunk xs h) = marks h" "mark_log (fold sweep_chunk xs h) = mark_log h"
  "finalizable (fold sweep_chunk xs h) = finalizable h"
  "fin_queue (fold sweep_chunk xs h) = fin_queue h"
  "finalized (fold sweep_chunk xs h) = finalized h" "brk (fold sweep_chunk xs h) = brk h"
  "os_pages (fold sweep_chunk xs h) = os_pages h"
  "collections (fold sweep_chunk xs h) = collections h"
  "growth_threshold (fold sweep_chunk xs h) = growth_threshold h"
  by (induction xs arbitrary: h; simp)+

lemmas sweep_frame [simp] = fold_sweep_frame [of "chunk_starts h" h, folded sweep_def] for h

lemma classify_sweep_chunk [simp]: "classify (sweep_chunk x h) = classify h"
  by (rule classify_cong) simp

lemma dead_sweep_chunk [simp]: "dead (sweep_chunk x h) = dead h"
  by (rule ext) (simp add: dead_def)

lemma in_use_sweep_chunk:
  "in_use (sweep_chunk x h) = in_use h - (if dead h x then {x} else {})"
  by (auto simp: sweep_chunk_def release_def dead_def split: region.splits)

lemma in_use_fold_sweep:
  "in_use (fold sweep_chunk xs h) = in_use h - {s \<in> set xs. dead h s}"
  by (induction xs arbitrary: h) (auto simp: in_use_sweep_chunk)

lemma in_use_sweep: "in_use (sweep h) = in_use h - {s \<in> set (chunk_starts h). dead h s}"
  by (simp add: sweep_def in_use_fold_sweep)

lemma sweep_chunk_idle: "\<not> (x \<in> in_use h \<and> dead h x) \<Longrightarrow> sweep_chunk x h = h"
  by (auto simp: sweep_chunk_def release_def dead_def split: region.splits)

lemma fold_sweep_idle:
  "\<forall>s \<in> set xs. \<not> (s \<in> in_use h \<and> dead h s) \<Longrightarrow> fold sweep_chunk xs h = h"
  by (induction xs) (simp_all add: sweep_chunk_idle)

lemma sweep_idle:
  "\<forall>s \<in> set (chunk_starts h). \<not> (s \<in> in_use h \<and> dead h s) \<Longrightarrow> sweep h = h"
  by (simp add: sweep_def fold_sweep_idle)

lemma kept_marks_ready:
  assumes cl: "closed_upto h (marks h) {}"
  shows "kept_marks h \<union> (edges h)\<^sup>* `` set (ready_of h)
       = queue_marks h \<union> (edges h)\<^sup>* `` set (cands_of h)" (is "?L = ?R")
proof
  have "set (concat (map (scan h (queue_marks h)) (cands_of h))) \<subseteq> (edges h)\<^sup>* `` set (cands_of h)"
    by (auto dest!: scan_edges)
  then have "(edges h)\<^sup>* `` set (concat (map (scan h (queue_marks h)) (cands_of h)))
      \<subseteq> (edges h)\<^sup>* `` set (cands_of h)"
    by (auto intro: rtrancl_trans)
  moreover have "(edges h)\<^sup>* `` set (ready_of h) \<subseteq> (edges h)\<^sup>* `` set (cands_of h)"
    by (auto simp: ready_of_def)
  ultimately show "?L \<subseteq> ?R"
    by (auto simp: kept_marks_def)
next
  have "closed_upto h (queue_marks h) {}"
    unfolding queue_marks_def using cl by (rule closed_upto_Un)
  then have "closed_upto h (kept_marks h) {}"
    unfolding kept_marks_def by (rule closed_upto_Un)
  then have closed: "closed_upto h ?L {}"
    by (rule closed_upto_Un)
  have "set (cands_of h) \<subseteq> ?L"
    by (auto simp: ready_of_def)
  with closed have "(edges h)\<^sup>* `` set (cands_of h) \<subseteq> ?L"
    by (blast dest: closed_rtrancl)
  then show "?R \<subseteq> ?L"
    by (auto simp: kept_marks_def)
qed

lemma mark_phase_frame [simp]:
  "index (mark_phase h) = index h" "mem (mark_phase h) = mem h"
  "blacklist (mark_phase h) = blacklist h" "roots (mark_phase h) = roots h"
  "in_use (mark_phase h) = in_use h" "free_list (mark_phase h) = free_list h"
  "finalizable (mark_phase h) = finalizable h" "fin_queue (mark_phase h) = fin_queue h"
  "finalized (mark_phase h) = finalized h" "brk (mark_phase h) = brk h"
  "os_pages (mark_phase h) = os_pages h" "collections (mark_phase h) = collections h"
  "growth_threshold (mark_phase h) = growth_threshold h"
  by (simp_all add: mark_phase_def)

lemma collect_phases:
  fixes h defines "hm \<equiv> mark_phase (clear_marks h)"
  shows "same_graph hm h" and "marks hm = (edges h)\<^sup>* `` set (seed h)"
    and "closed_upto hm (marks hm) {}"
    and "queue_marks hm = live_marks h" and "cands_of hm = pending h"
    and "ready_of hm = scheduled h"
    and "marks (finalize_phase hm) = final_marks h"
proof -
  show g: "same_graph hm h"
    by (simp add: hm_def same_graph_def)
  note e = same_graphD(2,3) [OF g]
  show m: "marks hm = (edges h)\<^sup>* `` set (seed h)"
    unfolding hm_def by (rule mark_phase_marks)
  show cl: "closed_upto hm (marks hm) {}"
    by (simp add: m e closed_upto_def) (auto intro: rtrancl_into_rtrancl)
  show q: "queue_marks hm = live_marks h"
    by (simp add: queue_marks_def live_marks_def m e Image_Un) (simp add: hm_def)
  show c: "cands_of hm = pending h"
    by (simp add: cands_of_def pending_def q) (simp add: hm_def)
  have k: "kept_marks hm = live_marks h
       \<union> (edges h)\<^sup>* `` set (concat (map (scan h (live_marks h)) (pending h)))"
    by (simp add: kept_marks_def q c e)
  show r: "ready_of hm = scheduled h"
    by (simp add: ready_of_def scheduled_def k c)
  have "marks (finalize_phase hm) = queue_marks hm \<union> (edges hm)\<^sup>* `` set (cands_of hm)"
    using finalize_phase_eq(1) [OF cl] kept_marks_ready [OF cl] by simp
  then show "marks (finalize_phase hm) = final_marks h"
    by (simp add: q c e final_marks_def live_marks_def Image_Un)
qed

lemma collect_eq:
  "collect h = (sweep (finalize_phase (mark_phase (clear_marks h))))
       \<lparr>collections := collections h + 1, bytes_since_gc := 0, collect_scheduled := False\<rparr>"
  by (simp add: collect_def)

lemma collect_frame [simp]:
  "index (collect h) = index h" "mem (collect h) = mem h"
  "blacklist (collect h) = blacklist h" "roots (collect h) = roots h"
  "finalized (collect h) = finalized h" "brk (collect h) = brk h"
  "os_pages (collect h) = os_pages h" "collections (collect h) = collections h + 1"
  "growth_threshold (collect h) = growth_threshold h"
  by (simp_all add: collect_def)

lemma same_graph_collect [simp]: "same_graph (collect h) h"
  by (simp add: same_graph_def)

lemma collect_marks: "marks (collect h) = final_marks h"
  by (simp add: collect_def collect_phases(7))

lemma collect_fin_queue: "fin_queue (collect h) = fin_queue h @ scheduled h"
  using finalize_phase_eq(2) [OF collect_phases(3), of h]
  by (simp add: collect_def collect_phases(6))

lemma collect_finalizable:
  "finalizable (collect h) = filter (\<lambda>c. c \<notin> set (scheduled h)) (finalizable h)"
  using finalize_phase_eq(3) [OF collect_phases(3), of h]
  by (simp add: collect_def collect_phases(6))

lemma collect_in_use: "in_use (collect h) = in_use h - reclaimed h"
proof -
  let ?hf = "finalize_phase (mark_phase (clear_marks h))"
  have g: "index ?hf = index h" by simp
  have "dead ?hf = (\<lambda>s. s \<notin> final_marks h \<and> (\<exists>c. classify h s = BlockStart c))"
    by (rule ext) (simp add: dead_def collect_phases(7) classify_cong [OF g])
  then show ?thesis
    by (simp add: collect_def in_use_sweep reclaimed_def chunk_starts_cong [OF g])
qed

lemma collect_log_ok: "log_ok (collect h)"
proof -
  have "log_ok (finalize_phase (mark_phase (clear_marks h)))"
    by (simp add: log_ok_finalize_phase log_ok_mark_from mark_phase_def)
  then show ?thesis
    by (simp add: log_ok_def collect_def)
qed

lemma seed_collect [simp]: "seed (collect h) = seed h"
  by (rule seed_cong) simp_all

lemma scheduled_subset: "set (scheduled h) \<subseteq> set (pending h)"
  by (auto simp: scheduled_def)

lemma pending_final: "set (pending h) \<subseteq> final_marks h"
  by (auto simp: final_marks_def)

lemma live_marks_final: "live_marks h \<subseteq> final_marks h"
  by (auto simp: final_marks_def live_marks_def)

lemma final_marks_closed: "s \<in> final_marks h \<Longrightarrow> (s, t) \<in> (edges h)\<^sup>* \<Longrightarrow> t \<in> final_marks h"
  by (auto simp: final_marks_def intro: rtrancl_trans)

lemma final_marks_collect: "final_marks (collect h) = final_marks h"
proof -
  let ?h = "collect h"
  have e: "edges ?h = edges h"
    by (simp add: same_graphD)
  have live: "live_marks ?h = (edges h)\<^sup>* `` (set (seed h) \<union> set (fin_queue h) \<union> set (scheduled h))"
    by (simp add: live_marks_def e collect_fin_queue Un_assoc)
  have lm: "live_marks h \<subseteq> live_marks ?h"
    unfolding live by (auto simp: live_marks_def)
  have sub: "set (pending ?h) \<subseteq> set (pending h)"
    using lm by (auto simp: pending_def collect_finalizable collect_in_use)
  show ?thesis
  proof
    have "set (seed h) \<union> set (fin_queue ?h) \<union> set (pending ?h)
        \<subseteq> set (seed h) \<union> set (fin_queue h) \<union> set (pending h)"
      using sub scheduled_subset [of h] by (auto simp: collect_fin_queue)
    then show "final_marks ?h \<subseteq> final_marks h"
      by (auto simp: final_marks_def e)
  next
    have roots: "set (seed h) \<union> set (fin_queue h) \<subseteq> final_marks ?h"
      by (auto simp: final_marks_def collect_fin_queue)
    have "set (pending h) \<subseteq> final_marks ?h"
    proof
      fix c assume c: "c \<in> set (pending h)"
      show "c \<in> final_marks ?h"
      proof (cases "c \<in> set (scheduled h)")
        case True
        then show ?thesis by (auto simp: final_marks_def collect_fin_queue)
      next
        case False
        from c have "c \<in> final_marks h" using pending_final by blast
        then have "c \<notin> reclaimed h" by (simp add: reclaimed_def)
        with c False have "c \<in> set (finalizable ?h)" "c \<in> in_use ?h"
          by (auto simp: pending_def collect_finalizable collect_in_use)
        then have "c \<in> live_marks ?h \<or> c \<in> set (pending ?h)"
          by (auto simp: pending_def)
        then show ?thesis
          using live_marks_final [of ?h] pending_final [of ?h] by blast
      qed
    qed
    with roots have "set (seed h) \<union> set (fin_queue h) \<union> set (pending h) \<subseteq> final_marks ?h"
      by simp
    then show "final_marks h \<subseteq> final_marks ?h"
      using final_marks_closed [of _ ?h] by (auto simp: final_marks_def [of h] e)
  qed
qed

lemma reclaimed_collect: "reclaimed (collect h) = reclaimed h"
  by (simp add: reclaimed_def final_marks_collect same_graphD(4,6) [of "collect h" h])

lemma collect_free_list_idle:
  assumes "in_use h \<inter> reclaimed h = {}"
  shows "free_list (collect h) = free_list h"
proof -
  let ?hf = "finalize_phase (mark_phase (clear_marks h))"
  have g: "index ?hf = index h" by simp
  have "dead ?hf s \<longleftrightarrow> s \<notin> final_marks h \<and> (\<exists>c. classify h s = BlockStart c)" for s
    by (simp add: dead_def collect_phases(7) classify_cong [OF g])
  with assms have "\<forall>s \<in> set (chunk_starts ?hf). \<not> (s \<in> in_use ?hf \<and> dead ?hf s)"
    by (auto simp: reclaimed_def chunk_starts_cong [OF g])
  then have "sweep ?hf = ?hf"
    by (rule sweep_idle)
  then show ?thesis
    by (simp add: collect_def)
qed

lemma collect_twice:
  "in_use (collect (collect h)) = in_use (collect h)"
  "free_list (collect (collect h)) = free_list (collect h)"
proof -
  show "in_use (collect (collect h)) = in_use (collect h)"
    by (auto simp: collect_in_use reclaimed_collect)
  have "in_use (collect h) \<inter> reclaimed (collect h) = {}"
    by (auto simp: collect_in_use reclaimed_collect)
  then show "free_list (collect (collect h)) = free_list (collect h)"
    by (rule collect_free_list_idle)
qed

lemma heap_inv_cong:
  assumes "index h' = index h" "free_list h' = free_list h" "in_use h' = in_use h"
    "brk h' = brk h"
  shows "heap_inv h' = heap_inv h"
  using assms classify_cong [OF assms(1)]
  by (simp add: heap_inv_def free_lists_ok_def in_use_ok_def index_ok_def)

lemma heap_inv_init: "heap_inv (init_heap bl pages threshold)"
  by (simp add: heap_inv_def free_lists_ok_def in_use_ok_def index_ok_def init_heap_def)

lemma classify_release [simp]: "classify (release s h) = classify h"
  by (rule classify_cong) simp

lemma heap_inv_release:
  assumes inv: "heap_inv h" and s: "s \<in> in_use h"
  shows "heap_inv (release s h)"
proof (cases "classify h s")
  case (BlockStart c)
  then have eq: "release s h
      = h\<lparr>in_use := in_use h - {s}, free_list := (free_list h)(c := s # free_list h c)\<rparr>"
    by (simp add: release_def)
  from inv have fl: "\<And>c a. a \<in> set (free_list h c) \<Longrightarrow> classify h a = BlockStart c \<and> a \<notin> in_use h"
    and di: "\<And>c. distinct (free_list h c)"
    by (auto simp: heap_inv_def free_lists_ok_def)
  from fl s have "s \<notin> set (free_list h c)" by blast
  with fl di BlockStart have "free_lists_ok (release s h)"
    unfolding free_lists_ok_def classify_release by (auto simp: eq)
  moreover from inv have "in_use_ok (release s h)"
    unfolding in_use_ok_def classify_release by (auto simp: eq heap_inv_def in_use_ok_def)
  moreover from inv have "index_ok (release s h)"
    by (simp add: heap_inv_def index_ok_def)
  ultimately show ?thesis by (simp add: heap_inv_def)
qed (simp_all add: release_def inv)

lemma heap_inv_free: "heap_inv h \<Longrightarrow> heap_inv (free a h)"
  by (simp add: free_def heap_inv_release)

lemma heap_inv_sweep_chunk: "heap_inv h \<Longrightarrow> heap_inv (sweep_chunk s h)"
  by (simp add: sweep_chunk_def heap_inv_release)

lemma heap_inv_sweep: "heap_inv h \<Longrightarrow> heap_inv (sweep h)"
proof -
  have "heap_inv h \<Longrightarrow> heap_inv (fold sweep_chunk xs h)" for xs
    by (induction xs arbitrary: h) (simp_all add: heap_inv_sweep_chunk)
  then show "heap_inv h \<Longrightarrow> heap_inv (sweep h)"
    by (simp add: sweep_def)
qed

lemma heap_inv_collect: "heap_inv h \<Longrightarrow> heap_inv (collect h)"
proof -
  assume inv: "heap_inv h"
  let ?hf = "finalize_phase (mark_phase (clear_marks h))"
  have "heap_inv ?hf = heap_inv h"
    by (rule heap_inv_cong) simp_all
  with inv have "heap_inv (sweep ?hf)"
    by (simp add: heap_inv_sweep)
  moreover have "heap_inv (collect h) = heap_inv (sweep ?hf)"
    by (rule heap_inv_cong) (simp_all add: collect_def)
  ultimately show ?thesis by simp
qed

lemma page_size_pos [simp]: "0 < page_size"
  by (simp add: page_size_def)

lemma granule_pos [simp]: "0 < granule"
  by (simp add: granule_def)

lemma page_of_lower: "p * page_size \<le> a \<Longrightarrow> p \<le> a div page_size"
  by (simp add: less_eq_div_iff_mult_less_eq)

lemma page_of_upper: "a < q * page_size \<Longrightarrow> a div page_size < q"
  by (simp add: less_mult_imp_div_less)

lemma size_class_from_bounds: "0 < c \<Longrightarrow> n \<le> size_class_from c n \<and> c \<le> size_class_from c n"
proof (induction c n rule: size_class_from.induct)
  case (1 c n)
  show ?case
  proof (cases "n \<le> c")
    case True
    then show ?thesis by (subst (1 2) size_class_from.simps) simp
  next
    case False
    with 1 have "n \<le> size_class_from (2 * c) n \<and> 2 * c \<le> size_class_from (2 * c) n"
      by simp
    with False 1(2) show ?thesis
      by (subst (1 2) size_class_from.simps) simp
  qed
qed

lemma size_class_ge: "n \<le> size_class_of n"
  by (simp add: size_class_of_def size_class_from_bounds)

lemma size_class_pos [simp]: "0 < size_class_of n"
  using size_class_from_bounds [of granule n] granule_pos by (simp add: size_class_of_def del: granule_pos)

lemma pages_for_covers: "c \<le> pages_for c * page_size"
proof -
  define x where "x = c + page_size - 1"
  have "x = x div page_size * page_size + x mod page_size"
    by simp
  moreover have "x mod page_size < page_size"
    by simp
  ultimately have "c \<le> x div page_size * page_size"
    unfolding x_def by linarith
  then show ?thesis
    by (simp add: pages_for_def x_def)
qed

lemma map_of_const_entries:
  "map_of (map (\<lambda>q. (q, b)) qs) q = (if q \<in> set qs then Some b else None)"
  by (induction qs) auto

lemma map_of_new_block:
  "map_of (map (\<lambda>q. (q, b)) [p..<p + k] @ idx) q
     = (if p \<le> q \<and> q < p + k then Some b else map_of idx q)"
  by (simp add: map_of_append map_add_def map_of_const_entries)

lemma index_ok_lookup: "index_ok h \<Longrightarrow> brk h \<le> q \<Longrightarrow> map_of (index h) q = None"
  by (force simp: index_ok_def map_of_eq_None_iff)

lemma classify_heap_page:
  "classify h a \<noteq> NotHeap \<Longrightarrow> map_of (index h) (a div page_size) \<noteq> None"
  by (auto simp: classify_def split: option.splits)

lemma acquire_blockE:
  assumes "acquire_block c h = Some h'"
  obtains p where "brk h \<le> p" and "pages_clear h p (pages_for c)"
    and "pages_for c \<le> os_pages h"
    and "h' = h\<lparr>index := map (\<lambda>q. (q, new_block p c)) [p..<p + pages_for c] @ index h,
               free_list := (free_list h)(c := block_chunks (new_block p c) @ free_list h c),
               brk := p + pages_for c,
               os_pages := os_pages h - pages_for c\<rparr>"
proof -
  let ?k = "pages_for c"
  let ?ps = "map (\<lambda>i. brk h + i * ?k) [0..<Suc (length (blacklist h))]"
  from assms obtain p where f: "find (\<lambda>p. pages_clear h p ?k) ?ps = Some p"
    and k: "?k \<le> os_pages h"
    and h': "h' = h\<lparr>index := map (\<lambda>q. (q, new_block p c)) [p..<p + ?k] @ index h,
               free_list := (free_list h)(c := block_chunks (new_block p c) @ free_list h c),
               brk := p + ?k, os_pages := os_pages h - ?k\<rparr>"
    by (auto simp: acquire_block_def Let_def split: if_splits option.splits)
  from f obtain i where "i < length ?ps" "pages_clear h (?ps ! i) ?k" "p = ?ps ! i"
    unfolding find_Some_iff by blast
  then have "brk h \<le> p" "pages_clear h p ?k"
    by (simp_all del: upt_Suc add: nth_append)
  then show ?thesis using k h' by (rule that)
qed

lemma new_block_chunk:
  assumes "a \<in> set (block_chunks (new_block p c))"
  shows "p * page_size \<le> a" and "a < (p + pages_for c) * page_size"
    and "\<exists>i. a = p * page_size + i * c" and "0 < c"
    and "a < p * page_size + c * ((pages_for c * page_size) div c)"
proof -
  let ?n = "(pages_for c * page_size) div c"
  from assms obtain i where i: "i < ?n" and a: "a = p * page_size + i * c"
    by (auto simp: block_chunks_def new_block_def)
  from i show pos: "0 < c" by (cases c) auto
  from a show "p * page_size \<le> a" by simp
  from a show "\<exists>i. a = p * page_size + i * c" by blast
  from i pos have "i * c < ?n * c" by simp
  then show lt: "a < p * page_size + c * ?n"
    by (simp add: a mult.commute)
  have "c * ?n \<le> pages_for c * page_size"
    by simp
  with lt have "a < p * page_size + pages_for c * page_size"
    by linarith
  then show "a < (p + pages_for c) * page_size"
    by (simp add: add_mult_distrib)
qed

lemma distinct_block_chunks: "distinct (block_chunks (new_block p c))"
proof (cases "c = 0")
  case True
  then show ?thesis by (simp add: block_chunks_def new_block_def)
next
  case False
  then show ?thesis
    by (auto simp: block_chunks_def new_block_def distinct_map intro!: inj_onI)
qed

lemma block_chunks_nonempty: "0 < c \<Longrightarrow> block_chunks (new_block p c) \<noteq> []"
proof -
  assume "0 < c"
  then have "0 < (pages_for c * page_size) div c"
    using pages_for_covers [of c] by (simp add: div_greater_zero_iff)
  then show ?thesis
    by (simp add: block_chunks_def new_block_def)
qed

lemma heap_inv_acquire:
  assumes inv: "heap_inv h" and acq: "acquire_block c h = Some h'"
  shows "heap_inv h'" and "in_use h' = in_use h"
proof -
  let ?k = "pages_for c"
  from acq obtain p where p: "brk h \<le> p" and clear: "pages_clear h p ?k"
    and h': "h' = h\<lparr>index := map (\<lambda>q. (q, new_block p c)) [p..<p + ?k] @ index h,
               free_list := (free_list h)(c := block_chunks (new_block p c) @ free_list h c),
               brk := p + ?k, os_pages := os_pages h - ?k\<rparr>"
    by (rule acquire_blockE)
  let ?b = "new_block p c"
  from inv have fl: "\<And>c a. a \<in> set (free_list h c) \<Longrightarrow> classify h a = BlockStart c \<and> a \<notin> in_use h"
    and di: "\<And>c. distinct (free_list h c)"
    and iu: "\<And>a. a \<in> in_use h \<Longrightarrow> \<exists>c. classify h a = BlockStart c"
    and io: "index_ok h"
    by (auto simp: heap_inv_def free_lists_ok_def in_use_ok_def)
  have lookup: "map_of (index h') q = (if p \<le> q \<and> q < p + ?k then Some ?b else map_of (index h) q)"
    for q
    by (simp add: h' map_of_new_block del: map_of_append)
  have fresh: "map_of (index h) q = None" if "p \<le> q" for q
    using io p that by (intro index_ok_lookup) auto
  have old: "classify h' a = classify h a" if "classify h a \<noteq> NotHeap" for a
  proof -
    from that have "map_of (index h) (a div page_size) \<noteq> None"
      by (rule classify_heap_page)
    with fresh [of "a div page_size"] have "\<not> p \<le> a div page_size" by auto
    then show ?thesis
      by (simp add: classify_def lookup)
  qed
  have new: "classify h' a = BlockStart c \<and> classify h a = NotHeap"
    if a: "a \<in> set (block_chunks ?b)" for a
  proof -
    note facts = new_block_chunk [OF a]
    from facts(1) have lo: "p \<le> a div page_size" by (rule page_of_lower)
    from facts(2) have hi: "a div page_size < p + ?k" by (rule page_of_upper)
    from facts(3) obtain i where i: "a = p * page_size + i * c" by blast
    from lo have "classify h a = NotHeap"
      by (simp add: classify_def fresh)
    moreover from lo hi facts(1,5) have "classify h' a = BlockStart c"
      by (simp add: classify_def lookup new_block_def i)
    ultimately show ?thesis by simp
  qed
  show "in_use h' = in_use h"
    by (simp add: h')
  have "free_lists_ok h'"
    unfolding free_lists_ok_def
  proof (intro allI conjI ballI)
    fix c'
    have "set (block_chunks ?b) \<inter> set (free_list h c) = {}"
    proof -
      have False if "a \<in> set (block_chunks ?b)" "a \<in> set (free_list h c)" for a
        using new [OF that(1)] fl [OF that(2)] by simp
      then show ?thesis by blast
    qed
    then show "distinct (free_list h' c')"
      using di [of c'] di [of c] distinct_block_chunks [of p c]
      by (simp add: h')
  next
    fix c' a assume a: "a \<in> set (free_list h' c')"
    then consider "c' = c" "a \<in> set (block_chunks ?b)" | "a \<in> set (free_list h c')"
      by (auto simp: h' split: if_splits)
    then show "classify h' a = BlockStart c'"
    proof cases
      case 1
      with new show ?thesis by simp
    next
      case 2
      with fl [OF 2] old [of a] show ?thesis by simp
    qed
    from a consider "c' = c" "a \<in> set (block_chunks ?b)" | "a \<in> set (free_list h c')"
      by (auto simp: h' split: if_splits)
    then show "a \<notin> in_use h'"
    proof cases
      case 1
      with new [of a] iu [of a] show ?thesis by (auto simp: h')
    next
      case 2
      with fl [OF 2] show ?thesis by (simp add: h')
    qed
  qed
  moreover have "in_use_ok h'"
    unfolding in_use_ok_def
  proof
    fix a assume "a \<in> in_use h'"
    then have "a \<in> in_use h" by (simp add: h')
    with iu obtain c0 where "classify h a = BlockStart c0" by blast
    with old [of a] show "\<exists>c. classify h' a = BlockStart c" by simp
  qed
  moreover have "index_ok h'"
    using io p by (force simp: index_ok_def h')
  ultimately show "heap_inv h'"
    by (simp add: heap_inv_def)
qed

lemma refill_nonempty:
  assumes "refill c h = Some h'" and "0 < c"
  shows "free_list h' c \<noteq> []"
proof (cases "free_list h c = []")
  case True
  with assms(1) have "acquire_block c h = Some h'" by (simp add: refill_def)
  then obtain p where "h' = h\<lparr>index := map (\<lambda>q. (q, new_block p c)) [p..<p + pages_for c] @ index h,
               free_list := (free_list h)(c := block_chunks (new_block p c) @ free_list h c),
               brk := p + pages_for c, os_pages := os_pages h - pages_for c\<rparr>"
    by (rule acquire_blockE)
  with block_chunks_nonempty [OF assms(2), of p] show ?thesis by simp
next
  case False
  with assms(1) show ?thesis by (simp add: refill_def)
qed

lemma heap_inv_refill:
  assumes "heap_inv h" and "refill c h = Some h'"
  shows "heap_inv h'" and "in_use h' = in_use h"
  using assms heap_inv_acquire [of h c h'] by (auto simp: refill_def split: if_splits)

lemma hand_out_Inr:
  assumes "hand_out c mode h = (Inr a, h')"
  obtains rest where "free_list h c = a # rest" and "in_use h' = insert a (in_use h)"
    and "free_list h' = (free_list h)(c := rest)" and "index h' = index h"
    and "brk h' = brk h" and "blacklist h' = blacklist h"
    and "mode = Zeroed \<longrightarrow> (\<forall>x. a \<le> x \<and> x < a + c \<longrightarrow> mem h' x = 0)"
proof (cases "free_list h c")
  case Nil
  with assms show ?thesis by (simp add: hand_out_def)
next
  case (Cons a' rest)
  with assms have "a' = a" by (simp add: hand_out_def Let_def)
  with Cons assms show ?thesis
    by (intro that [of rest])
      (auto simp: hand_out_def Let_def note_growth_def zero_fill_def split: init_mode.splits)
qed

lemma hand_out_Inl: "hand_out c mode h = (Inl e, h') \<Longrightarrow> free_list h c = []"
  by (cases "free_list h c") (simp_all add: hand_out_def Let_def)

lemma heap_inv_hand_out:
  assumes inv: "heap_inv h"
  shows "heap_inv (snd (hand_out c mode h))"
proof (cases "hand_out c mode h")
  case (Pair r h')
  show ?thesis
  proof (cases r)
    case (Inl e)
    with Pair have "h' = h"
      by (cases "free_list h c") (simp_all add: hand_out_def Let_def)
    with inv Pair show ?thesis by simp
  next
    case (Inr a)
    with Pair have "hand_out c mode h = (Inr a, h')" by simp
    then obtain rest where fl: "free_list h c = a # rest" and iu: "in_use h' = insert a (in_use h)"
      and fl': "free_list h' = (free_list h)(c := rest)" and ix: "index h' = index h"
      and bk: "brk h' = brk h" and bl: "blacklist h' = blacklist h"
      by (rule hand_out_Inr)
    note cl = classify_cong [OF ix]
    from inv have ok: "\<And>c a. a \<in> set (free_list h c) \<Longrightarrow> classify h a = BlockStart c \<and> a \<notin> in_use h"
      and di: "\<And>c. distinct (free_list h c)"
      and rest: "in_use_ok h" "index_ok h"
      by (auto simp: heap_inv_def free_lists_ok_def)
    from ok [of a c] fl have a: "classify h a = BlockStart c" "a \<notin> in_use h" by simp_all
    have "free_lists_ok h'"
      unfolding free_lists_ok_def cl
    proof (intro allI conjI ballI)
      fix c'
      show "distinct (free_list h' c')"
        using di [of c'] fl by (auto simp: fl')
    next
      fix c' b assume b: "b \<in> set (free_list h' c')"
      then have b': "b \<in> set (free_list h c')"
        using fl by (auto simp: fl' split: if_splits)
      with ok show "classify h b = BlockStart c'" by blast
      have "b \<noteq> a"
      proof
        assume "b = a"
        with ok [OF b'] a have "c' = c" by simp
        with b fl di [of c] \<open>b = a\<close> show False by (simp add: fl')
      qed
      with ok [OF b'] show "b \<notin> in_use h'" by (simp add: iu)
    qed
    moreover from rest(1) a have "in_use_ok h'"
      unfolding in_use_ok_def cl by (auto simp: iu)
    moreover from rest(2) have "index_ok h'"
      by (simp add: index_ok_def ix bk)
    ultimately show ?thesis using Pair by (simp add: heap_inv_def)
  qed
qed

lemma heap_inv_at_boundary: "heap_inv h \<Longrightarrow> heap_inv (at_boundary h)"
  by (simp add: at_boundary_def heap_inv_collect)

text \<open>The ways a call of \<open>allocate\<close> can go.\<close>

lemma allocate_cases:
  obtains (served) h0 h1 where "h0 = at_boundary h \<or> h0 = collect (at_boundary h)"
      and "refill (size_class_of n) h0 = Some h1"
      and "allocate h n mode = hand_out (size_class_of n) mode h1"
  | (refused) "refill (size_class_of n) (at_boundary h) = None"
      and "refill (size_class_of n) (collect (at_boundary h)) = None"
      and "allocate h n mode = (Inl OutOfMemory, collect (at_boundary h))"
proof (cases "refill (size_class_of n) (at_boundary h)")
  case (Some h1)
  then show ?thesis
    by (intro served [of "at_boundary h" h1]) (simp_all add: allocate_def Let_def)
next
  case None
  show ?thesis
  proof (cases "refill (size_class_of n) (collect (at_boundary h))")
    case (Some h1)
    with None show ?thesis
      by (intro served [of "collect (at_boundary h)" h1]) (simp_all add: allocate_def Let_def)
  next
    case None': None
    with None show ?thesis
      by (intro refused) (simp_all add: allocate_def Let_def)
  qed
qed

lemma heap_inv_allocate:
  assumes "heap_inv h"
  shows "heap_inv (snd (allocate h n mode))"
proof (cases rule: allocate_cases [of h n mode])
  case (served h0 h1)
  from assms served(1) have "heap_inv h0"
    by (auto simp: heap_inv_at_boundary heap_inv_collect)
  then have "heap_inv h1" using served(2) by (rule heap_inv_refill)
  with served(3) show ?thesis by (simp add: heap_inv_hand_out)
next
  case refused
  with assms show ?thesis
    by (simp add: heap_inv_at_boundary heap_inv_collect)
qed

lemma heap_inv_step: "interface_step h h' \<Longrightarrow> heap_inv h \<Longrightarrow> heap_inv h'"
proof (induction rule: interface_step.induct)
  case (step_allocate h n mode)
  then show ?case by (simp add: heap_inv_allocate)
next
  case (step_free h a)
  then show ?case by (simp add: heap_inv_free)
next
  case (step_collect h)
  then show ?case by (simp add: forceCollection_def heap_inv_collect)
next
  case (step_store h a v)
  have "heap_inv (store a v h) = heap_inv h"
    by (rule heap_inv_cong) (simp_all add: store_def)
  with step_store show ?case by simp
next
  case (step_set_roots h rs)
  have "heap_inv (set_roots rs h) = heap_inv h"
    by (rule heap_inv_cong) (simp_all add: set_roots_def)
  with step_set_roots show ?case by simp
next
  case (step_register h a)
  have "heap_inv (register_finalizer a h) = heap_inv h"
    by (rule heap_inv_cong) (simp_all add: register_finalizer_def)
  with step_register show ?case by simp
next
  case (step_finalizer h)
  have "heap_inv (run_finalizer h) = heap_inv h"
    by (rule heap_inv_cong) (simp_all add: run_finalizer_def split: list.splits)
  with step_finalizer show ?case by simp
next
  case (step_false_pointer h w)
  have "heap_inv (note_false_pointer w h) = heap_inv h"
    by (rule heap_inv_cong) (simp_all add: note_false_pointer_def)
  with step_false_pointer show ?case by simp
next
  case (step_pointer_free h p)
  have "heap_inv (note_pointer_free_page p h) = heap_inv h"
    by (rule heap_inv_cong) (simp_all add: note_pointer_free_page_def)
  with step_pointer_free show ?case by simp
qed

lemma heap_state_inv: "heap_state h \<Longrightarrow> heap_inv h"
  by (induction rule: heap_state.induct) (auto intro: heap_inv_init heap_inv_step)



lemma same_graph_run_finalizer [simp]: "same_graph (run_finalizer h) h"
  by (simp add: same_graph_def run_finalizer_def split: list.splits)

lemma at_boundary_mem [simp]: "mem (at_boundary h) = mem h"
  by (simp add: at_boundary_def)

lemma refill_mem: "refill c h = Some h' \<Longrightarrow> mem h' = mem h"
  by (auto simp: refill_def split: if_splits elim!: acquire_blockE)

lemma hand_out_mem: "hand_out c Uninitialized h = (r, h') \<Longrightarrow> mem h' = mem h"
  by (auto simp: hand_out_def Let_def note_growth_def split: list.splits)

lemma clear_window_exists:
  assumes k: "0 < k"
  shows "\<exists>i \<le> length bl. \<forall>q \<in> set bl. \<not> (b + i * k \<le> q \<and> q < b + i * k + k)"
proof (rule ccontr)
  assume "\<not> ?thesis"
  then have "\<forall>i \<in> {..length bl}. \<exists>q. q \<in> set bl \<and> b + i * k \<le> q \<and> q < b + i * k + k"
    by auto
  then obtain f where f: "\<forall>i \<in> {..length bl}. f i \<in> set bl \<and> b + i * k \<le> f i \<and> f i < b + i * k + k"
    by (rule bchoice [THEN exE]) blast
  have "(f i - b) div k = i" if "i \<in> {..length bl}" for i
  proof -
    from f that have "b + i * k \<le> f i \<and> f i < b + i * k + k" by blast
    then have "i * k \<le> f i - b" "f i - b < i * k + k" by linarith+
    then have "i \<le> (f i - b) div k" "(f i - b) div k < Suc i"
      using k by (simp_all add: less_eq_div_iff_mult_less_eq div_less_iff_less_mult)
    then show ?thesis by simp
  qed
  then have "inj_on f {..length bl}"
    by (rule inj_on_inverseI)
  moreover from f have "f ` {..length bl} \<subseteq> set bl" by auto
  ultimately have "card {..length bl} \<le> card (set bl)"
    by (intro card_inj_on_le) auto
  moreover have "card (set bl) \<le> length bl" by (rule card_length)
  ultimately show False by simp
qed

lemma acquire_block_None:
  assumes "0 < c"
  shows "acquire_block c h = None \<longleftrightarrow> os_pages h < pages_for c"
proof -
  let ?k = "pages_for c"
  from assms pages_for_covers [of c] have k: "0 < ?k"
    by (cases "?k") auto
  obtain i where "i \<le> length (blacklist h)"
    and "\<forall>q \<in> set (blacklist h). \<not> (brk h + i * ?k \<le> q \<and> q < brk h + i * ?k + ?k)"
    using clear_window_exists [OF k, of "blacklist h" "brk h"] by blast
  then have "\<exists>p \<in> set (map (\<lambda>i. brk h + i * ?k) [0..<Suc (length (blacklist h))]).
      pages_clear h p ?k"
    by (auto simp: pages_clear_def list_all_iff intro!: bexI [of _ i] simp del: upt_Suc)
  then have "find (\<lambda>p. pages_clear h p ?k)
      (map (\<lambda>i. brk h + i * ?k) [0..<Suc (length (blacklist h))]) \<noteq> None"
    unfolding find_None_iff by blast
  then show ?thesis
    by (auto simp: acquire_block_def Let_def split: option.splits)
qed

lemma refill_None: "0 < c \<Longrightarrow> refill c h = None \<longleftrightarrow> os_refuses c h"
  by (simp add: refill_def acquire_block_None os_refuses_def)

lemma allocate_refused:
  "(fst (allocate h n mode) = Inl OutOfMemory \<longrightarrow>
      refill (size_class_of n) (at_boundary h) = None
      \<and> snd (allocate h n mode) = collect (at_boundary h)
      \<and> refill (size_class_of n) (collect (at_boundary h)) = None)
   \<and> (refill (size_class_of n) (at_boundary h) = None \<longrightarrow>
       (case refill (size_class_of n) (collect (at_boundary h)) of
          None \<Rightarrow> allocate h n mode = (Inl OutOfMemory, collect (at_boundary h))
        | Some h2 \<Rightarrow> allocate h n mode = hand_out (size_class_of n) mode h2))"
proof (intro conjI impI)
  assume oom: "fst (allocate h n mode) = Inl OutOfMemory"
  have served_ok: False
    if "refill (size_class_of n) h0 = Some h1"
      and "allocate h n mode = hand_out (size_class_of n) mode h1" for h0 h1
  proof -
    from that(1) have "free_list h1 (size_class_of n) \<noteq> []"
      by (rule refill_nonempty) simp
    moreover from oom that(2) have "free_list h1 (size_class_of n) = []"
      by (cases "hand_out (size_class_of n) mode h1") (auto dest: hand_out_Inl)
    ultimately show False by simp
  qed
  show "refill (size_class_of n) (at_boundary h) = None"
    by (cases rule: allocate_cases [of h n mode]) (auto dest: served_ok)
  show "snd (allocate h n mode) = collect (at_boundary h)"
    by (cases rule: allocate_cases [of h n mode]) (auto dest: served_ok)
  show "refill (size_class_of n) (collect (at_boundary h)) = None"
    by (cases rule: allocate_cases [of h n mode]) (auto dest: served_ok)
next
  assume "refill (size_class_of n) (at_boundary h) = None"
  then show "case refill (size_class_of n) (collect (at_boundary h)) of
          None \<Rightarrow> allocate h n mode = (Inl OutOfMemory, collect (at_boundary h))
        | Some h2 \<Rightarrow> allocate h n mode = hand_out (size_class_of n) mode h2"
    by (simp add: allocate_def Let_def split: option.splits)
qed

subsection \<open>The references of the Mark Engine and the references of the objects\<close>







subsection \<open>An object that awaits its finalizer\<close>





lemma at_boundary_finalized [simp]: "finalized (at_boundary h) = finalized h"
  by (simp add: at_boundary_def)




subsection \<open>The example heaps\<close>

lemmas eval_defs = init_heap_def allocate_def Let_def at_boundary_def refill_def
  acquire_block_def pages_for_def page_size_def pages_clear_def new_block_def block_chunks_def
  hand_out_def note_growth_def zero_fill_def upt_conv_Cons

lemma size_class_of_2048: "size_class_of 2048 = 2048"
  by (simp add: size_class_of_def granule_def size_class_from.simps)

lemma size_class_of_16: "size_class_of 16 = 16"
  by (simp add: size_class_of_def granule_def size_class_from.simps)

lemma first_allocation:
  "fst (allocate fresh_heap 2048 Zeroed) = Inr 4096"
  "in_use (snd (allocate fresh_heap 2048 Zeroed)) = {4096}"
  "index (snd (allocate fresh_heap 2048 Zeroed))
     = [(1, \<lparr>base = 4096, chunk_size = 2048, chunk_count = 2\<rparr>)]"
  by (simp_all add: fresh_heap_def eval_defs size_class_of_2048)

lemma exhausted_heap_refill:
  "refill 16 exhausted_heap = None" "refill 16 (collect exhausted_heap) = None"
proof -
  show "refill 16 exhausted_heap = None"
    by (simp add: exhausted_heap_def eval_defs)
  have "free_list (collect exhausted_heap) = free_list exhausted_heap"
    by (rule collect_free_list_idle) (simp add: exhausted_heap_def init_heap_def)
  then show "refill 16 (collect exhausted_heap) = None"
    by (simp add: refill_def acquire_block_def Let_def pages_for_def page_size_def)
      (simp add: exhausted_heap_def init_heap_def)
qed















































section \<open>Properties of \<open>if_not_there\<close>\<close>

text \<open>
  Claim C8. Started with fewer than two or more than three arguments (\<open>argc <
  2\<close> or \<open>argc > 3\<close>), \<open>main\<close> makes exactly one library
  call, the \<open>fprintf\<close> of the usage message to \<open>stderr\<close>, and
  returns 1. It opens no file and executes no command.
\<close>

theorem main_usage:
  assumes "argc = int (length argv)" and "argc < 2 \<or> argc > 3"
  shows "main e argc argv = (Returned 1, [Fprintf_stderr usage_format (argv_at argv 0)])
       \<and> \<not> list_ex opens_file (snd (main e argc argv))
       \<and> \<not> list_ex runs_command (snd (main e argc argv))"
  using assms by (auto simp: main_def)

theorem main_usage_witness:
  "main posix_env 1 [''if_not_there'']
     = (Returned 1, [Fprintf_stderr usage_format (Some ''if_not_there'')])
   \<and> main posix_env 4 [''if_not_there'', ''a'', ''b'', ''c'']
     = (Returned 1, [Fprintf_stderr usage_format (Some ''if_not_there'')])"
  using main_usage [of 1 "[''if_not_there'']" posix_env]
    main_usage [of 4 "[''if_not_there'', ''a'', ''b'', ''c'']" posix_env]
  by (simp add: argv_at_def)

text \<open>
  Claim C9. Started with two or three arguments, where \<open>fopen\<close> of the file
  named by \<open>argv[1]\<close> succeeds in mode \<open>rb\<close> or in mode
  \<open>r\<close>, \<open>main\<close> returns 0; its last two calls are the successful
  \<open>fopen\<close> and the \<open>fclose\<close> of that stream; the banner is not
  printed and \<open>execvp\<close> is not called.
\<close>

theorem main_file_present:
  assumes "argc = int (length argv)" and "argc = 2 \<or> argc = 3"
    and "fname = TRUSTED_STRING e (argv_at argv 1)"
    and "fopen_ok e fname ''rb'' \<or> fopen_ok e fname ''r''"
  shows "fst (main e argc argv) = Returned 0
       \<and> (\<exists>mode. mode \<in> {''rb'', ''r''} \<and> fopen_ok e fname mode
            \<and> (\<exists>tr. snd (main e argc argv) = tr @ [Fopen fname mode, Fclose fname mode]))
       \<and> Printf banner \<notin> set (snd (main e argc argv))
       \<and> \<not> list_ex runs_command (snd (main e argc argv))"
  using assms by (auto simp: main_def Let_def)

theorem main_file_present_witness:
  "fst (main posix_env 3 [''if_not_there'', ''gc.a'', ''make'']) = Returned 0
   \<and> Printf banner \<notin> set (snd (main posix_env 3 [''if_not_there'', ''gc.a'', ''make'']))"
  using main_file_present [of 3 "[''if_not_there'', ''gc.a'', ''make'']" "Some ''gc.a''" posix_env]
  by (simp add: posix_env_def argv_at_def)

text \<open>
  Claim C10. Started with two or three arguments, where no probe can open the file named
  by \<open>argv[1]\<close>, \<open>main\<close> prints the banner to
  \<open>stdout\<close> and flushes it after the failed probes. With \<open>argc =
  2\<close> it then returns 2. With \<open>argc = 3\<close> its next and last call is
  \<open>execvp\<close> of \<open>argv[2]\<close> with the vector \<open>argv + 2\<close>;
  the process ends by \<open>exit(1)\<close> if \<open>execvp\<close> fails and is
  replaced by the command otherwise.
\<close>

theorem main_file_missing:
  assumes "argc = int (length argv)" and "argc = 2 \<or> argc = 3"
    and "fname = TRUSTED_STRING e (argv_at argv 1)"
    and "\<not> can_open e fname"
    and "cmd = TRUSTED_STRING e (argv_at argv 2)"
  shows "main e argc argv =
          (if argc = 2 then Returned 2
           else if execvp_fails e cmd (drop 2 argv) then Exited 1 else Replaced,
           probes e fname @ [Printf banner, Fflush_stdout]
             @ (if argc = 2 then [] else [Execvp cmd (drop 2 argv)]))"
  using assms by (auto simp: main_def Let_def can_open_def)

theorem main_file_missing_witness:
  "main posix_env 2 [''if_not_there'', ''gc.o''] =
     (Returned 2, [Fopen (Some ''gc.o'') ''rb'', Fopen (Some ''gc.o'') ''r'',
                   Printf banner, Fflush_stdout])
   \<and> main posix_env 3 [''if_not_there'', ''gc.o'', ''make''] =
     (Replaced, [Fopen (Some ''gc.o'') ''rb'', Fopen (Some ''gc.o'') ''r'',
                   Printf banner, Fflush_stdout, Execvp (Some ''make'') [''make'']])"
  using main_file_missing [of 2 "[''if_not_there'', ''gc.o'']" "Some ''gc.o''" posix_env "None"]
    main_file_missing [of 3 "[''if_not_there'', ''gc.o'', ''make'']" "Some ''gc.o''" posix_env "Some ''make''"]
  by (simp add: posix_env_def argv_at_def can_open_def probes_def)

section \<open>Properties of the engine\<close>







text \<open>
  Claim C3. A collection starts by clearing the mark bits: after
  \<open>clear_marks\<close> no bit is set, and the outcome of a collection does not
  depend on the bits and the log it finds. \<open>mark_log\<close> records every setting
  of a mark bit during the collection, in order; no object occurs in it twice, and the
  objects in it are the marked ones. So every bit is set at most once per collection.
\<close>

theorem mark_bits_set_once:
  "marks (clear_marks h) = {}
   \<and> collect (h\<lparr>marks := M, mark_log := L\<rparr>) = collect h
   \<and> distinct (mark_log (collect h))
   \<and> set (mark_log (collect h)) = marks (collect h)"
proof -
  have "clear_marks (h\<lparr>marks := M, mark_log := L\<rparr>) = clear_marks h"
    by (simp add: clear_marks_def)
  then have "collect (h\<lparr>marks := M, mark_log := L\<rparr>) = collect h"
    by (simp add: collect_def)
  with collect_log_ok [of h] show ?thesis
    by (simp add: log_ok_def)
qed

text \<open>
  Claim C4. In every state of the heap, when \<open>allocate h n mode\<close> returns an
  address \<open>a\<close>: \<open>a\<close> was not in use, either in \<open>h\<close>
  itself or in \<open>h\<close> after the collection the call ran first, and the chunks in
  use afterwards are those and \<open>a\<close>; \<open>a\<close> is the start of a chunk
  of the size class \<open>size_class_of n\<close>, which is at least \<open>n\<close>
  bytes; in mode \<open>Zeroed\<close> every word of the chunk is zero, and in mode
  \<open>Uninitialized\<close> the memory is left as it was.
\<close>

theorem allocate_contract:
  assumes hs: "heap_state h" and al: "allocate h n mode = (Inr a, h')"
  shows "(a \<notin> in_use h \<and> in_use h' = insert a (in_use h)
          \<or> a \<notin> in_use (collect h) \<and> in_use h' = insert a (in_use (collect h)))
       \<and> classify h' a = BlockStart (size_class_of n) \<and> n \<le> size_class_of n
       \<and> (mode = Zeroed \<longrightarrow> (\<forall>x. a \<le> x \<and> x < a + size_class_of n \<longrightarrow> mem h' x = 0))
       \<and> (mode = Uninitialized \<longrightarrow> mem h' = mem h)"
proof (cases rule: allocate_cases [of h n mode])
  case (served h0 h1)
  let ?c = "size_class_of n"
  from hs have inv: "heap_inv h" by (rule heap_state_inv)
  with served(1) have inv0: "heap_inv h0"
    by (auto simp: heap_inv_at_boundary heap_inv_collect)
  from served(1) have use0: "in_use h0 = in_use h \<or> in_use h0 = in_use (collect h)"
    by (cases "collect_scheduled h") (auto simp: at_boundary_def collect_twice(1))
  from served(1) have mem0: "mem h0 = mem h" by auto
  from inv0 served(2) have inv1: "heap_inv h1" and use1: "in_use h1 = in_use h0"
    by (rule heap_inv_refill)+
  from served(2) have mem1: "mem h1 = mem h0" by (rule refill_mem)
  from al served(3) have ho: "hand_out ?c mode h1 = (Inr a, h')" by simp
  then obtain rest where fl: "free_list h1 ?c = a # rest"
    and use': "in_use h' = insert a (in_use h1)" and ix: "index h' = index h1"
    and zero: "mode = Zeroed \<longrightarrow> (\<forall>x. a \<le> x \<and> x < a + ?c \<longrightarrow> mem h' x = 0)"
    by (rule hand_out_Inr)
  from inv1 have "\<forall>b \<in> set (free_list h1 ?c). classify h1 b = BlockStart ?c \<and> b \<notin> in_use h1"
    by (simp add: heap_inv_def free_lists_ok_def)
  with fl have "classify h1 a = BlockStart ?c" "a \<notin> in_use h1"
    by simp_all
  then have cl: "classify h' a = BlockStart ?c" and fresh: "a \<notin> in_use h0"
    by (simp_all add: classify_cong [OF ix] use1)
  from use0 have "a \<notin> in_use h \<and> in_use h' = insert a (in_use h)
      \<or> a \<notin> in_use (collect h) \<and> in_use h' = insert a (in_use (collect h))"
  proof
    assume "in_use h0 = in_use h"
    with fresh use' use1 show ?thesis by simp
  next
    assume "in_use h0 = in_use (collect h)"
    with fresh use' use1 show ?thesis by simp
  qed
  moreover have "mem h' = mem h" if "mode = Uninitialized"
    using ho that hand_out_mem [of ?c h1 "Inr a" h'] mem0 mem1 by simp
  moreover note cl size_class_ge [of n] zero
  ultimately show ?thesis
    by simp
next
  case refused
  with al show ?thesis by simp
qed

theorem allocate_contract_witness:
  "fst (allocate fresh_heap 2048 Zeroed) = Inr 4096
   \<and> classify (snd (allocate fresh_heap 2048 Zeroed)) 4096 = BlockStart 2048
   \<and> in_use (snd (allocate fresh_heap 2048 Zeroed)) = {4096}
   \<and> mem (snd (allocate fresh_heap 2048 Zeroed)) 4104 = 0"
proof -
  have hs: "heap_state fresh_heap"
    unfolding fresh_heap_def by (rule hs_init)
  have al: "allocate fresh_heap 2048 Zeroed = (Inr 4096, snd (allocate fresh_heap 2048 Zeroed))"
    by (simp add: prod_eq_iff first_allocation)
  from allocate_contract [OF hs al] show ?thesis
    by (simp add: size_class_of_2048 first_allocation)
qed

text \<open>
  Claim C5. \<open>allocate\<close> returns \<open>OutOfMemory\<close> only when the
  operating system refused the pages for the request at the allocation boundary, the heap
  it returns is the result of the emergency collection run then, and the request cannot be
  satisfied on that heap either. Conversely, whenever the operating system refuses the
  pages at the allocation boundary, the emergency collection runs and the request is
  decided on the collected heap: it is served from the free list the collection rebuilt if
  that is not empty, and fails with \<open>OutOfMemory\<close> otherwise.
\<close>

theorem out_of_memory_after_collection:
  "(fst (allocate h n mode) = Inl OutOfMemory \<longrightarrow>
      os_refuses (size_class_of n) (at_boundary h)
      \<and> snd (allocate h n mode) = collect (at_boundary h)
      \<and> os_refuses (size_class_of n) (collect (at_boundary h)))
   \<and> (os_refuses (size_class_of n) (at_boundary h) \<longrightarrow>
       allocate h n mode =
         (if free_list (collect (at_boundary h)) (size_class_of n) = []
          then (Inl OutOfMemory, collect (at_boundary h))
          else hand_out (size_class_of n) mode (collect (at_boundary h))))"
proof (intro conjI impI)
  assume "fst (allocate h n mode) = Inl OutOfMemory"
  with allocate_refused [of h n mode]
  show "os_refuses (size_class_of n) (at_boundary h)"
    and "snd (allocate h n mode) = collect (at_boundary h)"
    and "os_refuses (size_class_of n) (collect (at_boundary h))"
    by (simp_all add: refill_None)
next
  let ?h1 = "collect (at_boundary h)"
  assume r: "os_refuses (size_class_of n) (at_boundary h)"
  then have none: "refill (size_class_of n) (at_boundary h) = None"
    by (simp add: refill_None)
  from r have "acquire_block (size_class_of n) ?h1 = None"
    by (simp add: acquire_block_None os_refuses_def)
  then have "refill (size_class_of n) ?h1
      = (if free_list ?h1 (size_class_of n) = [] then None else Some ?h1)"
    by (simp add: refill_def)
  with allocate_refused [of h n mode] none
  show "allocate h n mode =
         (if free_list ?h1 (size_class_of n) = []
          then (Inl OutOfMemory, ?h1)
          else hand_out (size_class_of n) mode ?h1)"
    by (simp split: if_splits)
qed

theorem out_of_memory_after_collection_witness:
  "allocate exhausted_heap 16 Zeroed = (Inl OutOfMemory, collect exhausted_heap)
   \<and> collections (snd (allocate exhausted_heap 16 Zeroed)) = 1"
proof -
  have "at_boundary exhausted_heap = exhausted_heap"
    by (simp add: at_boundary_def exhausted_heap_def init_heap_def)
  moreover have "os_refuses 16 exhausted_heap"
    using exhausted_heap_refill(1) by (simp add: refill_None)
  moreover have "free_list (collect exhausted_heap) 16 = []"
    using exhausted_heap_refill(2) by (simp add: refill_None os_refuses_def)
  ultimately have "allocate exhausted_heap 16 Zeroed = (Inl OutOfMemory, collect exhausted_heap)"
    using out_of_memory_after_collection [of exhausted_heap 16 Zeroed]
    by (simp add: size_class_of_16)
  then show ?thesis
    by (simp add: exhausted_heap_def init_heap_def)
qed







end
